theory Spec2Isabelle
  imports Main "HOL-Library.AList"
begin

section \<open>JSON values and the JavaScript operations the generator applies to them\<close>

text \<open>
  The generator works on the result of \<^verbatim>\<open>JSON.parse\<close>, cast to \<^verbatim>\<open>JsonSchema\<close> without any
  validation, so a schema node is an arbitrary JSON value. An object is the list of its own
  properties in enumeration order (keys distinct, as \<^verbatim>\<open>JSON.parse\<close> produces them). Numbers are
  the integers that JavaScript prints in plain decimal, those of magnitude below ten to the
  power 21; strings are byte strings.
\<close>

datatype json =
    JNull
  | JBool bool
  | JNum int
  | JStr string
  | JArr "json list"
  | JObj "(string \<times> json) list"

text \<open>Exceptions of the run: a failed document load, a JavaScript \<^verbatim>\<open>TypeError\<close>, and the
  \<^verbatim>\<open>RangeError\<close> of \<^verbatim>\<open>repeat\<close> with a negative count.\<close>

datatype error = SchemaLoadError string | TypeError | RangeError

subsection \<open>Strings\<close>

definition startsWith :: "string \<Rightarrow> string \<Rightarrow> bool" where
  "startsWith s pre = (take (length pre) s = pre)"

text \<open>\<^verbatim>\<open>s.split(c)\<close> for a one-character separator: never empty, \<^verbatim>\<open>''.split('/')\<close> is \<^verbatim>\<open>['']\<close>.\<close>

fun splitOn :: "char \<Rightarrow> string \<Rightarrow> string list" where
  "splitOn c [] = [[]]"
| "splitOn c (x # xs) =
     (if x = c then [] # splitOn c xs
      else (case splitOn c xs of
              [] \<Rightarrow> [[x]]
            | y # ys \<Rightarrow> (x # y) # ys))"

text \<open>\<^verbatim>\<open>xs.join(sep)\<close>.\<close>

fun join :: "string \<Rightarrow> string list \<Rightarrow> string" where
  "join sep [] = []"
| "join sep [x] = x"
| "join sep (x # y # ys) = x @ sep @ join sep (y # ys)"

text \<open>\<^verbatim>\<open>s.replace(/pat/g, rep)\<close> for a literal pattern: leftmost matches, not overlapping.\<close>

fun replaceAll :: "string \<Rightarrow> string \<Rightarrow> string \<Rightarrow> string" where
  "replaceAll pat rep [] = []"
| "replaceAll pat rep (x # xs) =
     (if pat \<noteq> [] \<and> startsWith (x # xs) pat
      then rep @ replaceAll pat rep (drop (length pat) (x # xs))
      else x # replaceAll pat rep xs)"

text \<open>\<^verbatim>\<open>'  '.repeat(n)\<close>.\<close>

definition repeat :: "string \<Rightarrow> nat \<Rightarrow> string" where
  "repeat s n = concat (replicate n s)"

text \<open>Decimal rendering of a number, as \<^verbatim>\<open>String(n)\<close> gives it for an integer.\<close>

definition digit :: "nat \<Rightarrow> char" where
  "digit n = ''0123456789'' ! (n mod 10)"

function showNat :: "nat \<Rightarrow> string" where
  "showNat n = (if n < 10 then [digit n] else showNat (n div 10) @ [digit n])"
  by pat_completeness auto
termination
  by (relation "measure id") auto

definition showInt :: "int \<Rightarrow> string" where
  "showInt i = (if i < 0 then CHR ''-'' # showNat (nat (- i)) else showNat (nat i))"

subsection \<open>Truthiness, property access, \<^verbatim>\<open>in\<close>\<close>

fun truthy :: "json \<Rightarrow> bool" where
  "truthy JNull = False"
| "truthy (JBool b) = b"
| "truthy (JNum n) = (n \<noteq> 0)"
| "truthy (JStr s) = (s \<noteq> [])"
| "truthy (JArr xs) = True"
| "truthy (JObj kvs) = True"

text \<open>A property read gives \<^verbatim>\<open>undefined\<close> (\<open>None\<close>) or a value.\<close>

fun truthyU :: "json option \<Rightarrow> bool" where
  "truthyU None = False"
| "truthyU (Some v) = truthy v"

text \<open>\<^verbatim>\<open>a ?? b\<close>: the left operand unless it is \<^verbatim>\<open>undefined\<close> or \<^verbatim>\<open>null\<close>.\<close>

fun nullish :: "json option \<Rightarrow> json option \<Rightarrow> json option" where
  "nullish None b = b"
| "nullish (Some JNull) b = b"
| "nullish (Some v) b = Some v"

text \<open>The own elements of an array or a string by index key: \<^verbatim>\<open>'0'\<close>, \<^verbatim>\<open>'1'\<close>, ...\<close>

definition indexed :: "'a list \<Rightarrow> (string \<times> 'a) list" where
  "indexed xs = zip (map showNat [0 ..< length xs]) xs"

text \<open>
  The names of the properties the generator reads from a schema node, and \<^verbatim>\<open>length\<close>, which
  it reads from \<^verbatim>\<open>schema.examples\<close>. No built-in prototype has a member with the name of a
  schema property, so such a read finds an own property or \<^verbatim>\<open>undefined\<close>.
\<close>

definition schemaKeys :: "string list" where
  "schemaKeys = [''$ref'', ''oneOf'', ''anyOf'', ''allOf'', ''enum'', ''const'', ''type'', ''items'',
     ''properties'', ''required'', ''additionalProperties'', ''title'', ''description'',
     ''default'', ''examples'']"

text \<open>
  \<^verbatim>\<open>v.k\<close> on a parsed value other than \<^verbatim>\<open>null\<close>, for \<open>k\<close> a schema property, \<^verbatim>\<open>length\<close> or an
  index: the own property \<open>k\<close>, the elements and the \<^verbatim>\<open>length\<close> of an array or a string.
\<close>

fun jsonProp :: "json \<Rightarrow> string \<Rightarrow> json option" where
  "jsonProp (JObj kvs) k = map_of kvs k"
| "jsonProp (JArr xs) k =
     (if k = ''length'' then Some (JNum (int (length xs))) else map_of (indexed xs) k)"
| "jsonProp (JStr s) k =
     (if k = ''length'' then Some (JNum (int (length s)))
      else map_option (\<lambda>c. JStr [c]) (map_of (indexed s) k))"
| "jsonProp v k = None"

text \<open>\<^verbatim>\<open>typeof v === 'object'\<close> holds of objects, arrays and \<^verbatim>\<open>null\<close>.\<close>

fun typeofObject :: "json \<Rightarrow> bool" where
  "typeofObject JNull = True"
| "typeofObject (JArr xs) = True"
| "typeofObject (JObj kvs) = True"
| "typeofObject v = False"

text \<open>\<^verbatim>\<open>Object.entries(v)\<close> for a value other than \<^verbatim>\<open>null\<close>.\<close>

fun entries :: "json \<Rightarrow> (string \<times> json) list" where
  "entries (JObj kvs) = kvs"
| "entries (JArr xs) = indexed xs"
| "entries (JStr s) = indexed (map (\<lambda>c. JStr [c]) s)"
| "entries v = []"

text \<open>\<^verbatim>\<open>a ?? b\<close> with a default that is a value.\<close>

fun orElse :: "json option \<Rightarrow> json \<Rightarrow> json" where
  "orElse None b = b"
| "orElse (Some JNull) b = b"
| "orElse (Some v) b = v"

text \<open>\<^verbatim>\<open>Array.isArray(x)\<close>, with the elements; a string read from a property; and
  \<^verbatim>\<open>typeof x === 'object'\<close>, which holds of \<^verbatim>\<open>null\<close> too.\<close>

fun asArray :: "json option \<Rightarrow> json list option" where
  "asArray (Some (JArr xs)) = Some xs"
| "asArray v = None"

fun asString :: "json option \<Rightarrow> string option" where
  "asString (Some (JStr s)) = Some s"
| "asString v = None"

fun objectTyped :: "json option \<Rightarrow> json option" where
  "objectTyped None = None"
| "objectTyped (Some v) = (if typeofObject v then Some v else None)"

subsection \<open>Values at run time\<close>

text \<open>
  A pointer can lead out of the parsed document: \<^verbatim>\<open>in\<close> and \<^verbatim>\<open>current[part]\<close> also find the
  members that a parsed object inherits from \<^verbatim>\<open>Object.prototype\<close> and a parsed array from
  \<^verbatim>\<open>Array.prototype\<close>. Such a member is a built-in function, or, for \<^verbatim>\<open>__proto__\<close>, the prototype
  itself. \<open>BuiltinFunction p k\<close> is the function that is the own property \<open>k\<close> of the
  prototype \<open>p\<close>. The members are those of ECMAScript 2023 with its Annex B.
\<close>

datatype prototype = ObjectPrototype | ArrayPrototype

datatype jsvalue =
    Parsed json
  | Prototype prototype
  | BuiltinFunction prototype string

definition objectPrototypeNames :: "string list" where
  "objectPrototypeNames = [''constructor'', ''__defineGetter__'', ''__defineSetter__'',
     ''hasOwnProperty'', ''__lookupGetter__'', ''__lookupSetter__'', ''isPrototypeOf'',
     ''propertyIsEnumerable'', ''toString'', ''valueOf'', ''toLocaleString'']"

definition arrayPrototypeNames :: "string list" where
  "arrayPrototypeNames = [''constructor'', ''at'', ''concat'', ''copyWithin'', ''fill'', ''find'',
     ''findIndex'', ''findLast'', ''findLastIndex'', ''lastIndexOf'', ''pop'', ''push'',
     ''reverse'', ''shift'', ''unshift'', ''slice'', ''sort'', ''splice'', ''includes'',
     ''indexOf'', ''join'', ''keys'', ''entries'', ''values'', ''forEach'', ''filter'', ''flat'',
     ''flatMap'', ''map'', ''every'', ''some'', ''reduce'', ''reduceRight'', ''toReversed'',
     ''toSorted'', ''toSpliced'', ''with'', ''toLocaleString'', ''toString'']"

text \<open>The function an object finds under \<open>k\<close> on \<^verbatim>\<open>Object.prototype\<close>; and the one an array
  finds on \<^verbatim>\<open>Array.prototype\<close> or, behind it, on \<^verbatim>\<open>Object.prototype\<close>.\<close>

definition objectFunction :: "string \<Rightarrow> jsvalue option" where
  "objectFunction k =
     (if k \<in> set objectPrototypeNames then Some (BuiltinFunction ObjectPrototype k) else None)"

definition arrayFunction :: "string \<Rightarrow> jsvalue option" where
  "arrayFunction k =
     (if k \<in> set arrayPrototypeNames then Some (BuiltinFunction ArrayPrototype k)
      else objectFunction k)"

text \<open>Truthiness: every object and every function is truthy.\<close>

fun truthyValue :: "jsvalue \<Rightarrow> bool" where
  "truthyValue (Parsed v) = truthy v"
| "truthyValue v = True"

text \<open>
  The values that \<^verbatim>\<open>typeof\<close> calls \<^verbatim>\<open>'object'\<close>: \<^verbatim>\<open>null\<close>, a parsed object, a parsed array, a
  prototype. A function is not among them, nor is a string, a number or a boolean.
\<close>

datatype object =
    NullObject
  | PlainObject "(string \<times> json) list"
  | ArrayObject "json list"
  | PrototypeObject prototype

fun objectOf :: "jsvalue \<Rightarrow> object option" where
  "objectOf (Parsed JNull) = Some NullObject"
| "objectOf (Parsed (JObj kvs)) = Some (PlainObject kvs)"
| "objectOf (Parsed (JArr xs)) = Some (ArrayObject xs)"
| "objectOf (Prototype p) = Some (PrototypeObject p)"
| "objectOf v = None"

text \<open>
  \<^verbatim>\<open>current[part]\<close> on such a value: a \<^verbatim>\<open>TypeError\<close> on \<^verbatim>\<open>null\<close>; otherwise the own property, or
  the member found along the chain of prototypes, or \<^verbatim>\<open>undefined\<close> (\<open>None\<close>). The accessor
  \<^verbatim>\<open>__proto__\<close> of \<^verbatim>\<open>Object.prototype\<close> gives the prototype of the value it is read from, which
  is \<^verbatim>\<open>null\<close> for \<^verbatim>\<open>Object.prototype\<close> itself; an own property of that name, which
  \<^verbatim>\<open>JSON.parse\<close> creates like any other, hides it.
\<close>

fun member :: "object \<Rightarrow> string \<Rightarrow> error + jsvalue option" where
  "member NullObject k = Inl TypeError"
| "member (PlainObject kvs) k =
     Inr (case map_of kvs k of
            Some v \<Rightarrow> Some (Parsed v)
          | None \<Rightarrow> if k = ''__proto__'' then Some (Prototype ObjectPrototype) else objectFunction k)"
| "member (ArrayObject xs) k =
     Inr (if k = ''length'' then Some (Parsed (JNum (int (length xs))))
          else (case map_of (indexed xs) k of
                  Some v \<Rightarrow> Some (Parsed v)
                | None \<Rightarrow>
                    if k = ''__proto__'' then Some (Prototype ArrayPrototype) else arrayFunction k))"
| "member (PrototypeObject ArrayPrototype) k =
     Inr (if k = ''length'' then Some (Parsed (JNum 0))
          else if k = ''__proto__'' then Some (Prototype ObjectPrototype)
          else arrayFunction k)"
| "member (PrototypeObject ObjectPrototype) k =
     Inr (if k = ''__proto__'' then Some (Parsed JNull) else objectFunction k)"

text \<open>\<^verbatim>\<open>part in current\<close>: a \<^verbatim>\<open>TypeError\<close> on \<^verbatim>\<open>null\<close>; otherwise whether \<open>current\<close> has the
  member \<open>part\<close>, own or inherited.\<close>

definition inOperator :: "string \<Rightarrow> object \<Rightarrow> error + bool" where
  "inOperator part current =
     (case member current part of Inl e \<Rightarrow> Inl e | Inr found \<Rightarrow> Inr (found \<noteq> None))"

text \<open>A part can be followed: the value is an object, an array or a prototype, and has it.\<close>

definition hasPart :: "jsvalue \<Rightarrow> string \<Rightarrow> bool" where
  "hasPart current part =
     (truthyValue current
      \<and> (case objectOf current of
            None \<Rightarrow> False
          | Some obj \<Rightarrow> inOperator part obj = Inr True))"

text \<open>The value one step of the pointer leads to, when the part can be followed.\<close>

definition follow :: "jsvalue \<Rightarrow> string \<Rightarrow> jsvalue option" where
  "follow current part =
     (if truthyValue current then
        (case objectOf current of
           None \<Rightarrow> None
         | Some obj \<Rightarrow> (case member obj part of Inl e \<Rightarrow> None | Inr found \<Rightarrow> found))
      else None)"

text \<open>
  \<^verbatim>\<open>schema.k\<close> for a schema property \<open>k\<close> of a node other than \<^verbatim>\<open>null\<close>: the own property of a
  parsed value, and \<^verbatim>\<open>undefined\<close> on a prototype or a built-in function, which have no
  member of such a name.
\<close>

fun getProp :: "jsvalue \<Rightarrow> string \<Rightarrow> json option" where
  "getProp (Parsed v) k = jsonProp v k"
| "getProp v k = None"

section \<open>Pointer Resolver\<close>

text \<open>The three replacements applied to a pointer segment, in the order of the source.\<close>

definition unescapePart :: "string \<Rightarrow> string" where
  "unescapePart part =
     replaceAll ''%3A'' '':'' (replaceAll ''~0'' ''~'' (replaceAll ''~1'' ''/'' part))"

text \<open>
  The loop of \<^verbatim>\<open>getByPointer\<close> over the parts, with the short-circuit evaluation of its
  condition; \<open>Inr None\<close> is its \<^verbatim>\<open>return null\<close>, \<open>Inr (Some v)\<close> the value it returns after
  the last part.
\<close>

fun walk :: "jsvalue \<Rightarrow> string list \<Rightarrow> error + jsvalue option" where
  "walk current [] = Inr (Some current)"
| "walk current (part # parts) =
     (if truthyValue current then
        (case objectOf current of
           None \<Rightarrow> Inr None
         | Some obj \<Rightarrow>
             (case inOperator part obj of
                Inl e \<Rightarrow> Inl e
              | Inr found \<Rightarrow>
                  if found
                  then (case member obj part of
                          Inl e \<Rightarrow> Inl e
                        | Inr (Some v) \<Rightarrow> walk v parts
                        | Inr None \<Rightarrow> Inr None)
                  else Inr None))
      else Inr None)"

definition pointerParts :: "string \<Rightarrow> string list" where
  "pointerParts pointer = map unescapePart (splitOn CHR ''/'' (drop 2 pointer))"

definition getByPointer :: "jsvalue \<Rightarrow> string \<Rightarrow> error + jsvalue option" where
  "getByPointer schema pointer =
     (if \<not> startsWith pointer ''#/'' then Inr (Some schema)
      else walk schema (pointerParts pointer))"

section \<open>Rendering values as text\<close>

definition hexDigit :: "nat \<Rightarrow> char" where
  "hexDigit n = ''0123456789abcdef'' ! (n mod 16)"

text \<open>The escapes of \<^verbatim>\<open>JSON.stringify\<close> inside a string: quote, backslash, control characters.\<close>

definition quoteChar :: "char \<Rightarrow> string" where
  "quoteChar c =
     (if c = CHR 0x22 then [CHR 0x5C, CHR 0x22]
      else if c = CHR 0x5C then [CHR 0x5C, CHR 0x5C]
      else if c = CHR 0x08 then [CHR 0x5C, CHR ''b'']
      else if c = CHR 0x0C then [CHR 0x5C, CHR ''f'']
      else if c = CHR 0x0A then [CHR 0x5C, CHR ''n'']
      else if c = CHR 0x0D then [CHR 0x5C, CHR ''r'']
      else if c = CHR 0x09 then [CHR 0x5C, CHR ''t'']
      else if (of_char c :: nat) < 32
      then [CHR 0x5C, CHR ''u'', CHR ''0'', CHR ''0'',
            hexDigit (of_char c div 16), hexDigit (of_char c)]
      else [c])"

definition quoteJSON :: "string \<Rightarrow> string" where
  "quoteJSON s = [CHR 0x22] @ concat (map quoteChar s) @ [CHR 0x22]"

text \<open>\<^verbatim>\<open>JSON.stringify(v)\<close> of a parsed JSON value (no indentation argument).\<close>

fun stringify :: "json \<Rightarrow> string" where
  "stringify JNull = ''null''"
| "stringify (JBool b) = (if b then ''true'' else ''false'')"
| "stringify (JNum n) = showInt n"
| "stringify (JStr s) = quoteJSON s"
| "stringify (JArr xs) = ''['' @ join '','' (map stringify xs) @ '']''"
| "stringify (JObj kvs) =
     ''{'' @ join '','' (map (\<lambda>kv. quoteJSON (fst kv) @ '':'' @ stringify (snd kv)) kvs) @ ''}''"

text \<open>\<^verbatim>\<open>JSON.stringify(x)\<close> inside a template literal, where \<open>x\<close> may be \<^verbatim>\<open>undefined\<close>.\<close>

fun stringifyU :: "json option \<Rightarrow> string" where
  "stringifyU None = ''undefined''"
| "stringifyU (Some v) = stringify v"

text \<open>The first error of a list of results, or all the values.\<close>

fun collect :: "(error + 'a) list \<Rightarrow> error + 'a list" where
  "collect [] = Inr []"
| "collect (Inl e # rs) = Inl e"
| "collect (Inr x # rs) = (case collect rs of Inl e \<Rightarrow> Inl e | Inr xs \<Rightarrow> Inr (x # xs))"

text \<open>
  The string conversion of a template literal \<^verbatim>\<open>`${v}`\<close>. An array joins its elements with
  commas (\<^verbatim>\<open>null\<close> as the empty string); a parsed object is \<^verbatim>\<open>[object Object]\<close>, unless an own
  property hides the inherited \<^verbatim>\<open>toString\<close> with a value that cannot be called.
\<close>

fun toStringJS :: "json \<Rightarrow> error + string" where
  "toStringJS JNull = Inr ''null''"
| "toStringJS (JBool b) = Inr (if b then ''true'' else ''false'')"
| "toStringJS (JNum n) = Inr (showInt n)"
| "toStringJS (JStr s) = Inr s"
| "toStringJS (JArr xs) =
     (case collect (map (\<lambda>x. if x = JNull then Inr [] else toStringJS x) xs) of
        Inl e \<Rightarrow> Inl e
      | Inr ss \<Rightarrow> Inr (join '','' ss))"
| "toStringJS (JObj kvs) =
     (if ''toString'' \<in> fst ` set kvs then Inl TypeError else Inr ''[object Object]'')"

text \<open>\<^verbatim>\<open>a !== b\<close> on parsed values: by value on primitives, by identity on arrays and objects
  (two different properties never hold the same array or object).\<close>

fun strictNotEqual :: "json option \<Rightarrow> json option \<Rightarrow> bool" where
  "strictNotEqual (Some (JArr xs)) b = True"
| "strictNotEqual (Some (JObj kvs)) b = True"
| "strictNotEqual a b = (a \<noteq> b)"

section \<open>Union construction\<close>

text \<open>\<^verbatim>\<open>[...new Set(xs)]\<close>: the first occurrence of each element, in insertion order.\<close>

definition setOrder :: "'a list \<Rightarrow> 'a list" where
  "setOrder xs = foldl (\<lambda>acc x. if x \<in> set acc then acc else acc @ [x]) [] xs"

definition wrapUnion :: "string list \<Rightarrow> string" where
  "wrapUnion types =
     (let unique = setOrder (filter (\<lambda>t. t \<noteq> []) types)
      in if unique = [] then ''unknown''
         else if length unique = 1 then hd unique
         else join '' | '' unique)"

section \<open>Paths\<close>

text \<open>
  \<^verbatim>\<open>path.posix.normalize\<close>, \<^verbatim>\<open>join\<close> and \<^verbatim>\<open>dirname\<close> of Node.js, segment by segment: an empty
  segment and \<^verbatim>\<open>.\<close> are dropped, \<^verbatim>\<open>..\<close> removes the segment before it unless there is none
  or it is \<^verbatim>\<open>..\<close> itself, in which case a relative path keeps the \<^verbatim>\<open>..\<close>.
\<close>

fun normalizeSegs :: "bool \<Rightarrow> string list \<Rightarrow> string list \<Rightarrow> string list" where
  "normalizeSegs allowAboveRoot res [] = res"
| "normalizeSegs allowAboveRoot res (seg # segs) =
     normalizeSegs allowAboveRoot
       (if seg = [] \<or> seg = ''.'' then res
        else if seg = ''..'' then
          (if res \<noteq> [] \<and> last res \<noteq> ''..'' then butlast res
           else if allowAboveRoot then res @ [''..'']
           else res)
        else res @ [seg])
       segs"

definition normalizeString :: "string \<Rightarrow> bool \<Rightarrow> string" where
  "normalizeString p allowAboveRoot =
     join ''/'' (normalizeSegs allowAboveRoot [] (splitOn CHR ''/'' p))"

definition posix_normalize :: "string \<Rightarrow> string" where
  "posix_normalize p =
     (if p = [] then ''.''
      else
        (let isAbsolute = (hd p = CHR ''/'');
             trailingSeparator = (last p = CHR ''/'');
             p' = normalizeString p (\<not> isAbsolute)
         in if p' = [] then (if isAbsolute then ''/'' else if trailingSeparator then ''./'' else ''.'')
            else (if isAbsolute then ''/'' else []) @ p' @ (if trailingSeparator then ''/'' else [])))"

definition posix_join :: "string list \<Rightarrow> string" where
  "posix_join args =
     (let parts = filter (\<lambda>a. a \<noteq> []) args
      in if parts = [] then ''.'' else posix_normalize (join ''/'' parts))"

text \<open>
  \<^verbatim>\<open>dirname\<close> scans from the right, over the trailing slashes and the last segment, to the
  slash before it (never the first character), and keeps what is left of that slash.
\<close>

definition posix_dirname :: "string \<Rightarrow> string" where
  "posix_dirname p =
     (if p = [] then ''.''
      else
        (let hasRoot = (hd p = CHR ''/'');
             r = dropWhile (\<lambda>c. c \<noteq> CHR ''/'') (dropWhile (\<lambda>c. c = CHR ''/'') (rev (tl p)))
         in if r = [] then (if hasRoot then ''/'' else ''.'')
            else if hasRoot \<and> length r = 1 then ''//''
            else take (length r) p))"

section \<open>Schema Store\<close>

record SchemaContext =
  schema :: jsvalue
  path :: string

text \<open>
  The repository on disk, by logical path: \<open>repo p\<close> is
  \<^verbatim>\<open>JSON.parse(readFileSync(getRepoPath(p), 'utf8'))\<close>, and \<open>None\<close> where the read or the parse
  throws.
\<close>

type_synonym repo = "string \<Rightarrow> json option"

text \<open>
  The module-level \<^verbatim>\<open>schemaCache\<close>, a \<^verbatim>\<open>Map\<close> in insertion order. \<open>reads\<close> is a ghost
  field: the paths handed to \<^verbatim>\<open>readFileSync\<close>, in order.
\<close>

record store =
  schemaCache :: "(string \<times> json) list"
  reads :: "string list"

definition emptyStore :: store where
  "emptyStore = \<lparr>schemaCache = [], reads = []\<rparr>"

definition loadSchemaContext :: "repo \<Rightarrow> string \<Rightarrow> store \<Rightarrow> error + (SchemaContext \<times> store)" where
  "loadSchemaContext repo relativePath st =
     (case map_of (schemaCache st) relativePath of
        Some doc \<Rightarrow> Inr (\<lparr>schema = Parsed doc, path = relativePath\<rparr>, st)
      | None \<Rightarrow>
          (case repo relativePath of
             None \<Rightarrow> Inl (SchemaLoadError relativePath)
           | Some doc \<Rightarrow>
               Inr (\<lparr>schema = Parsed doc, path = relativePath\<rparr>,
                    st\<lparr>schemaCache := schemaCache st @ [(relativePath, doc)],
                       reads := reads st @ [relativePath]\<rparr>)))"

section \<open>Reference Resolver\<close>

text \<open>\<^verbatim>\<open>target ? { schema: target, path } : null\<close> on the result of \<^verbatim>\<open>getByPointer\<close>.\<close>

definition targetAt :: "jsvalue option \<Rightarrow> string \<Rightarrow> SchemaContext option" where
  "targetAt target p =
     (case target of
        None \<Rightarrow> None
      | Some t \<Rightarrow> if truthyValue t then Some \<lparr>schema = t, path = p\<rparr> else None)"

definition resolveRef ::
  "repo \<Rightarrow> string \<Rightarrow> SchemaContext \<Rightarrow> store \<Rightarrow> error + (SchemaContext option \<times> store)" where
  "resolveRef repo ref context st =
     (if startsWith ref ''#/'' then
        (case getByPointer (schema context) ref of
           Inl e \<Rightarrow> Inl e
         | Inr target \<Rightarrow> Inr (targetAt target (path context), st))
      else if startsWith ref ''#'' then Inr (Some context, st)
      else
        (let parts = take 2 (splitOn CHR ''#'' ref);
             refPath = hd parts;
             fragment = tl parts;
             baseDir = posix_dirname (path context);
             normalized = posix_normalize (posix_join [baseDir, refPath])
         in case loadSchemaContext repo normalized st of
              Inl e \<Rightarrow> Inl e
            | Inr (targetContext, st') \<Rightarrow>
                (case fragment of
                   [frag] \<Rightarrow>
                     if frag \<noteq> [] \<and> startsWith frag ''/''
                     then (case getByPointer (schema targetContext) (CHR ''#'' # frag) of
                             Inl e \<Rightarrow> Inl e
                           | Inr target \<Rightarrow> Inr (targetAt target normalized, st'))
                     else Inr (Some targetContext, st')
                 | _ \<Rightarrow> Inr (Some targetContext, st'))))"

text \<open>
  \<^verbatim>\<open>resolveSchema\<close> follows a chain of references; \<open>seen\<close> is its set of visited keys. A key
  is the template string \<^verbatim>\<open>`${context.path}::${schema.$ref}`\<close>. The chain may be unbounded
  in a repository of unboundedly many documents: \<open>None\<close> stands for a call that does not
  return.
\<close>

partial_function (option) resolveSchema ::
  "repo \<Rightarrow> jsvalue \<Rightarrow> SchemaContext \<Rightarrow> string set \<Rightarrow> store \<Rightarrow> (error + (SchemaContext \<times> store)) option"
where
  "resolveSchema repo node context seen st =
     (if node = Parsed JNull then Some (Inl TypeError)
      else if \<not> truthyU (getProp node ''$ref'') then
        Some (Inr (\<lparr>schema = node, path = path context\<rparr>, st))
      else
        (case toStringJS (orElse (getProp node ''$ref'') JNull) of
           Inl e \<Rightarrow> Some (Inl e)
         | Inr refText \<Rightarrow>
             (let key = path context @ ''::'' @ refText
              in if key \<in> seen then Some (Inr (\<lparr>schema = node, path = path context\<rparr>, st))
                 else
                   (case asString (getProp node ''$ref'') of
                      None \<Rightarrow> Some (Inl TypeError)
                    | Some ref \<Rightarrow>
                        (case resolveRef repo ref context st of
                           Inl e \<Rightarrow> Some (Inl e)
                         | Inr (None, st') \<Rightarrow>
                             Some (Inr (\<lparr>schema = node, path = path context\<rparr>, st'))
                         | Inr (Some target, st') \<Rightarrow>
                             resolveSchema repo (schema target) target (insert key seen) st')))))"

section \<open>Documentation Extractor\<close>

definition newline :: string where
  "newline = [CHR 0x0A]"

text \<open>The title line: \<^verbatim>\<open>schema.title && schema.title !== schema.description\<close>.\<close>

definition titleLines :: "string \<Rightarrow> json option \<Rightarrow> json option \<Rightarrow> error + string list" where
  "titleLines indent title description =
     (case title of
        None \<Rightarrow> Inr []
      | Some t \<Rightarrow>
          if truthy t \<and> strictNotEqual title description
          then (case toStringJS t of Inl e \<Rightarrow> Inl e | Inr text \<Rightarrow> Inr [indent @ '' * '' @ text])
          else Inr [])"

text \<open>The description lines; \<^verbatim>\<open>split\<close> exists on strings only.\<close>

definition descriptionLines :: "string \<Rightarrow> json option \<Rightarrow> error + string list" where
  "descriptionLines indent description =
     (case description of
        None \<Rightarrow> Inr []
      | Some (JStr d) \<Rightarrow>
          if d \<noteq> [] then Inr (map (\<lambda>line. indent @ '' * '' @ line) (splitOn CHR 0x0A d)) else Inr []
      | Some v \<Rightarrow> if truthy v then Inl TypeError else Inr [])"

definition generateJSDoc :: "json \<Rightarrow> nat \<Rightarrow> error + string" where
  "generateJSDoc node depth =
     (if node = JNull then Inl TypeError
      else
        (let title = jsonProp node ''title'';
             description = jsonProp node ''description'';
             default = jsonProp node ''default'';
             examples = jsonProp node ''examples'';
             hasExamples =
               (case examples of
                  None \<Rightarrow> False
                | Some ex \<Rightarrow> truthy ex \<and> truthyU (jsonProp ex ''length''))
         in if truthyU title \<or> truthyU description \<or> default \<noteq> None \<or> hasExamples then
              (let indent = repeat ''  '' depth
               in case titleLines indent title description of
                    Inl e \<Rightarrow> Inl e
                  | Inr titleText \<Rightarrow>
                      (case descriptionLines indent description of
                         Inl e \<Rightarrow> Inl e
                       | Inr descriptionText \<Rightarrow>
                           Inr (join newline
                             ([indent @ ''/**''] @ titleText @ descriptionText
                              @ (case default of
                                   None \<Rightarrow> []
                                 | Some d \<Rightarrow> [indent @ '' * @default '' @ stringify d])
                              @ (case examples of
                                   None \<Rightarrow> []
                                 | Some ex \<Rightarrow>
                                     if hasExamples
                                     then [indent @ '' * @example '' @ stringifyU (jsonProp ex ''0'')]
                                     else [])
                              @ [indent @ '' */'']))))
            else Inr []))"

section \<open>Type Synthesizer\<close>

text \<open>\<^verbatim>\<open>xs.map(f)\<close> where \<open>f\<close> may load documents and may throw: left to right, the store
  threaded through, stopping at the first exception.\<close>

fun mapM ::
  "('a \<Rightarrow> store \<Rightarrow> error + ('b \<times> store)) \<Rightarrow> 'a list \<Rightarrow> store \<Rightarrow> error + ('b list \<times> store)" where
  "mapM f [] st = Inr ([], st)"
| "mapM f (x # xs) st =
     (case f x st of
        Inl e \<Rightarrow> Inl e
      | Inr (y, st') \<Rightarrow>
          (case mapM f xs st' of
             Inl e \<Rightarrow> Inl e
           | Inr (ys, st'') \<Rightarrow> Inr (y # ys, st'')))"

lemma mapM_cong [fundef_cong]:
  "xs = ys \<Longrightarrow> st = st' \<Longrightarrow> (\<And>x s. x \<in> set ys \<Longrightarrow> f x s = g x s)
   \<Longrightarrow> mapM f xs st = mapM g ys st'"
  by (induction ys arbitrary: xs st st') (auto split: sum.splits)

text \<open>\<^verbatim>\<open>{ ...schema, type }\<close>: the own enumerable properties, of which a prototype and a
  built-in function have none, \<^verbatim>\<open>type\<close> replaced where it stands.\<close>

fun withType :: "jsvalue \<Rightarrow> json \<Rightarrow> jsvalue" where
  "withType (Parsed v) t = Parsed (JObj (AList.update ''type'' t (entries v)))"
| "withType v t = Parsed (JObj [(''type'', t)])"

text \<open>The elements of \<^verbatim>\<open>new Set(x)\<close>: of an array or of a string; nothing else is iterable.\<close>

fun setElements :: "json \<Rightarrow> error + json list" where
  "setElements (JArr xs) = Inr xs"
| "setElements (JStr s) = Inr (map (\<lambda>c. JStr [c]) s)"
| "setElements v = Inl TypeError"

text \<open>\<^verbatim>\<open>/^[A-Za-z_$][A-Za-z0-9_$]*$/.test(key)\<close>.\<close>

definition identStart :: "char \<Rightarrow> bool" where
  "identStart c = (c \<in> set ''ABCDEFGHIJKLMNOPQRSTUVWXYZabcdefghijklmnopqrstuvwxyz_$'')"

definition identChar :: "char \<Rightarrow> bool" where
  "identChar c = (identStart c \<or> c \<in> set ''0123456789'')"

definition isIdentifier :: "string \<Rightarrow> bool" where
  "isIdentifier key = (case key of [] \<Rightarrow> False | c # cs \<Rightarrow> identStart c \<and> list_all identChar cs)"

definition safeKey :: "string \<Rightarrow> string" where
  "safeKey key = (if isIdentifier key then key else [CHR 0x27] @ key @ [CHR 0x27])"

text \<open>The literal type of an enum value or a const.\<close>

fun literalType :: "json \<Rightarrow> string" where
  "literalType (JStr s) = [CHR 0x27] @ s @ [CHR 0x27]"
| "literalType v = stringify v"

text \<open>The final \<^verbatim>\<open>switch (schema.type)\<close>.\<close>

definition primitiveType :: "json option \<Rightarrow> string" where
  "primitiveType t =
     (if t = Some (JStr ''string'') then ''string''
      else if t = Some (JStr ''number'') \<or> t = Some (JStr ''integer'') then ''number''
      else if t = Some (JStr ''boolean'') then ''boolean''
      else if t = Some (JStr ''null'') then ''null''
      else if t = Some (JStr ''array'') then ''unknown[]''
      else if t = Some (JStr ''object'') then ''Record<string, unknown>''
      else ''unknown'')"

text \<open>
  The synthesizer. A property read on \<^verbatim>\<open>null\<close> throws, so does a call of \<^verbatim>\<open>startsWith\<close> or
  \<^verbatim>\<open>map\<close> on a value that has no such method. The recursion is on the depth: every call
  made below depth 21 is at a greater depth.
\<close>

function jsonTypeToTsType ::
    "repo \<Rightarrow> jsvalue \<Rightarrow> SchemaContext \<Rightarrow> nat \<Rightarrow> store \<Rightarrow> error + (string \<times> store)"
  and renderObject ::
    "repo \<Rightarrow> jsvalue \<Rightarrow> SchemaContext \<Rightarrow> nat \<Rightarrow> store \<Rightarrow> error + (string \<times> store)"
where
  "jsonTypeToTsType repo node context depth st =
     (if depth > 20 then Inr (''unknown'', st)
      else if node = Parsed JNull then Inl TypeError
      else if truthyU (getProp node ''$ref'') then
        (case asString (getProp node ''$ref'') of
           None \<Rightarrow> Inl TypeError
         | Some ref \<Rightarrow>
             (case resolveRef repo ref context st of
                Inl e \<Rightarrow> Inl e
              | Inr (None, st') \<Rightarrow> Inr (''unknown'', st')
              | Inr (Some target, st') \<Rightarrow>
                  jsonTypeToTsType repo (schema target) target (depth + 1) st'))
      else if truthyU (getProp node ''oneOf'') \<or> truthyU (getProp node ''anyOf'') then
        (case asArray (Some (orElse (getProp node ''oneOf'')
                               (orElse (getProp node ''anyOf'') (JArr [])))) of
           None \<Rightarrow> Inl TypeError
         | Some options \<Rightarrow>
             (case mapM (\<lambda>option. jsonTypeToTsType repo (Parsed option) context (depth + 1)) options st of
                Inl e \<Rightarrow> Inl e
              | Inr (types, st') \<Rightarrow> Inr (wrapUnion (filter (\<lambda>t. t \<noteq> []) types), st')))
      else if truthyU (getProp node ''allOf'') then
        (case asArray (getProp node ''allOf'') of
           None \<Rightarrow> Inl TypeError
         | Some options \<Rightarrow>
             (case mapM (\<lambda>option. jsonTypeToTsType repo (Parsed option) context (depth + 1)) options st of
                Inl e \<Rightarrow> Inl e
              | Inr (types, st') \<Rightarrow>
                  Inr (if types \<noteq> [] then join '' & '' types else ''unknown'', st')))
      else if truthyU (getProp node ''enum'') then
        (case asArray (getProp node ''enum'') of
           None \<Rightarrow> Inl TypeError
         | Some vs \<Rightarrow> Inr (wrapUnion (map literalType vs), st))
      else
        (case getProp node ''const'' of
           Some v \<Rightarrow> Inr (literalType v, st)
         | None \<Rightarrow>
             (case asArray (getProp node ''type'') of
                Some ts \<Rightarrow>
                  (case mapM (\<lambda>t. jsonTypeToTsType repo (withType node t) context (depth + 1))
                          ts st of
                     Inl e \<Rightarrow> Inl e
                   | Inr (types, st') \<Rightarrow> Inr (wrapUnion types, st'))
              | None \<Rightarrow>
                  if getProp node ''type'' = Some (JStr ''array'') \<and> truthyU (getProp node ''items'')
                  then
                    (case asArray (getProp node ''items'') of
                       Some items \<Rightarrow>
                         (case mapM (\<lambda>item. jsonTypeToTsType repo (Parsed item) context (depth + 1))
                                 items st of
                            Inl e \<Rightarrow> Inl e
                          | Inr (types, st') \<Rightarrow> Inr (''['' @ join '', '' types @ '']'', st'))
                     | None \<Rightarrow>
                         (case jsonTypeToTsType repo (Parsed (orElse (getProp node ''items'') JNull))
                                 context (depth + 1) st of
                            Inl e \<Rightarrow> Inl e
                          | Inr (itemType, st') \<Rightarrow> Inr (''('' @ itemType @ '')[]'', st')))
                  else if getProp node ''type'' = Some (JStr ''object'')
                          \<or> truthyU (getProp node ''properties'')
                  then renderObject repo node context (depth + 1) st
                  else Inr (primitiveType (getProp node ''type''), st))))"
| "renderObject repo node context depth st =
     (let props = orElse (getProp node ''properties'') (JObj [])
      in case setElements (orElse (getProp node ''required'') (JArr [])) of
           Inl e \<Rightarrow> Inl e
         | Inr required \<Rightarrow>
             (let indent = repeat ''  '' depth
              in case mapM (\<lambda>kv s.
                        case generateJSDoc (snd kv) depth of
                          Inl e \<Rightarrow> Inl e
                        | Inr doc \<Rightarrow>
                            (let optional = (if JStr (fst kv) \<in> set required then [] else ''?'')
                             in case jsonTypeToTsType repo (Parsed (snd kv)) context (depth + 1) s of
                                  Inl e \<Rightarrow> Inl e
                                | Inr (type, s') \<Rightarrow>
                                    Inr ((if doc \<noteq> [] then [doc] else [])
                                         @ [indent @ safeKey (fst kv) @ optional @ '': '' @ type @ '';''],
                                         s')))
                      (entries props) st of
                   Inl e \<Rightarrow> Inl e
                 | Inr (fieldLines, st') \<Rightarrow>
                     (case (if getProp node ''additionalProperties'' = Some (JBool True)
                            then Inr ([indent @ ''[key: string]: unknown;''], st')
                            else
                              (case objectTyped (getProp node ''additionalProperties'') of
                                 None \<Rightarrow> Inr ([], st')
                               | Some additionalProperties \<Rightarrow>
                                   (case jsonTypeToTsType repo (Parsed additionalProperties) context
                                           (depth + 1) st' of
                                      Inl e \<Rightarrow> Inl e
                                    | Inr (additional, st'') \<Rightarrow>
                                        Inr ([indent @ ''[key: string]: '' @ additional @ '';''],
                                             st'')))) of
                        Inl e \<Rightarrow> Inl e
                      | Inr (additionalLines, st'') \<Rightarrow>
                          if depth = 0 then Inl RangeError
                          else Inr (join newline
                                      ([''{''] @ concat fieldLines @ additionalLines
                                       @ [repeat ''  '' (depth - 1) @ ''}'']),
                                    st''))))"
  by pat_completeness auto
termination
  by (relation "measure (\<lambda>x. case x of
         Inl (repo, node, context, depth, st) \<Rightarrow> 2 * (22 - depth)
       | Inr (repo, node, context, depth, st) \<Rightarrow> 2 * (21 - depth) + 1)") auto

section \<open>Component extraction\<close>

record ComponentDefinition =
  name :: string
  type :: string
  description :: "json option"
  title :: "json option"

text \<open>
  The loop of \<^verbatim>\<open>extractComponents\<close> over the entries of the root's properties: each value is
  resolved with a fresh visited set and synthesized at depth 0 in the resolved context.
\<close>

fun extractLoop ::
  "repo \<Rightarrow> SchemaContext \<Rightarrow> (string \<times> json) list \<Rightarrow> store
     \<Rightarrow> (error + (ComponentDefinition list \<times> store)) option" where
  "extractLoop repo context [] st = Some (Inr ([], st))"
| "extractLoop repo context (kv # rest) st =
     (case resolveSchema repo (Parsed (snd kv)) context {} st of
        None \<Rightarrow> None
      | Some (Inl e) \<Rightarrow> Some (Inl e)
      | Some (Inr (resolved, st1)) \<Rightarrow>
          (case jsonTypeToTsType repo (schema resolved) resolved 0 st1 of
             Inl e \<Rightarrow> Some (Inl e)
           | Inr (typeString, st2) \<Rightarrow>
               (case extractLoop repo context rest st2 of
                  None \<Rightarrow> None
                | Some (Inl e) \<Rightarrow> Some (Inl e)
                | Some (Inr (results, st3)) \<Rightarrow>
                    Some (Inr (\<lparr>name = fst kv, type = typeString,
                                description = nullish (getProp (schema resolved) ''description'')
                                                (jsonProp (snd kv) ''description''),
                                title = nullish (getProp (schema resolved) ''title'')
                                          (jsonProp (snd kv) ''title'')\<rparr> # results,
                               st3)))))"

definition extractComponents ::
  "repo \<Rightarrow> SchemaContext \<Rightarrow> store \<Rightarrow> (error + (ComponentDefinition list \<times> store)) option" where
  "extractComponents repo context st =
     (if schema context = Parsed JNull then Some (Inl TypeError)
      else extractLoop repo context
             (entries (orElse (getProp (schema context) ''properties'') (JObj []))) st)"

section \<open>Example repositories\<close>

text \<open>Two documents that refer to each other.\<close>

definition cycleA :: json where "cycleA = JObj [(''$ref'', JStr ''b.json'')]"
definition cycleB :: json where "cycleB = JObj [(''$ref'', JStr ''a.json'')]"
definition cycleRepo :: repo where
  "cycleRepo = map_of [(''a.json'', cycleA), (''b.json'', cycleB)]"


definition cycleCtxA :: SchemaContext where "cycleCtxA = \<lparr>schema = Parsed cycleA, path = ''a.json''\<rparr>"
definition cycleCtxB :: SchemaContext where "cycleCtxB = \<lparr>schema = Parsed cycleB, path = ''b.json''\<rparr>"

text \<open>A root document whose first component has a reference that leads nowhere, and one
  whose first component refers to a document that does not exist.\<close>

definition danglingRef :: json where
  "danglingRef = JObj [(''$ref'', JStr ''#/definitions/Missing'')]"
definition missingFileRef :: json where
  "missingFileRef = JObj [(''$ref'', JStr ''missing.json'')]"
definition numberNode :: json where
  "numberNode = JObj [(''type'', JStr ''number'')]"
definition danglingRoot :: SchemaContext where
  "danglingRoot = \<lparr>schema = Parsed (JObj [(''properties'',
       JObj [(''minecraft:health'', danglingRef), (''minecraft:scale'', numberNode)])]),
     path = ''source/components.json''\<rparr>"
definition missingFileRoot :: SchemaContext where
  "missingFileRoot = \<lparr>schema = Parsed (JObj [(''properties'',
       JObj [(''minecraft:health'', missingFileRef), (''minecraft:scale'', numberNode)])]),
     path = ''source/components.json''\<rparr>"

text \<open>A root document whose first component has a pointer that leads nowhere in the root and
  somewhere in the component itself.\<close>

definition selfTargetRef :: json where
  "selfTargetRef = JObj [(''$ref'', JStr ''#/a''), (''a'', JObj [(''oneOf'', JNum 5)])]"
definition selfTargetRoot :: SchemaContext where
  "selfTargetRoot = \<lparr>schema = Parsed (JObj [(''properties'',
       JObj [(''minecraft:health'', selfTargetRef), (''minecraft:scale'', numberNode)])]),
     path = ''source/components.json''\<rparr>"

text \<open>A document whose two definitions refer to each other by pointer.\<close>

definition sameDocCycle :: json where
  "sameDocCycle = JObj [(''definitions'',
      JObj [(''A'', JObj [(''$ref'', JStr ''#/definitions/B'')]),
            (''B'', JObj [(''$ref'', JStr ''#/definitions/A'')])])]"

text \<open>The store once both documents of the cycle are cached.\<close>

definition cycleStore :: store where
  "cycleStore = \<lparr>schemaCache = [(''b.json'', cycleB), (''a.json'', cycleA)],
                  reads = [''b.json'', ''a.json'']\<rparr>"

text \<open>
  A chain of references, as \<open>resolveRef\<close> follows it from a node in a context and a store to
  the node, context and store it ends in; \<open>keys\<close> are the keys \<open>resolveSchema\<close> visits.
\<close>

inductive refChain ::
  "repo \<Rightarrow> jsvalue \<Rightarrow> SchemaContext \<Rightarrow> store \<Rightarrow> string list
     \<Rightarrow> jsvalue \<Rightarrow> SchemaContext \<Rightarrow> store \<Rightarrow> bool"
  for repo :: repo
where
  chain_end: "refChain repo node context st [] node context st"
| chain_hop:
    "getProp node ''$ref'' = Some (JStr ref) \<Longrightarrow> ref \<noteq> []
     \<Longrightarrow> resolveRef repo ref context st = Inr (Some target, st1)
     \<Longrightarrow> refChain repo (schema target) target st1 keys node' context' st'
     \<Longrightarrow> refChain repo node context st ((path context @ ''::'' @ ref) # keys) node' context' st'"

code_pred refChain .

text \<open>An object type behind one reference.\<close>

definition objectDoc :: json where
  "objectDoc = JObj [(''definitions'',
      JObj [(''Stats'', JObj [(''type'', JStr ''object''),
                             (''properties'', JObj [(''hp'', JObj [(''type'', JStr ''integer'')])])])])]"
definition statsRef :: json where
  "statsRef = JObj [(''$ref'', JStr ''#/definitions/Stats'')]"
definition statsNode :: json where
  "statsNode = JObj [(''type'', JStr ''object''),
                     (''properties'', JObj [(''hp'', JObj [(''type'', JStr ''integer'')])])]"

text \<open>A chain of \<open>n\<close> references with different keys, each into the node that carries it;
  the chain ends in a string type.\<close>

definition hopKey :: "nat \<Rightarrow> string" where
  "hopKey k = replicate (Suc k) CHR ''x''"

fun nest :: "nat \<Rightarrow> nat \<Rightarrow> json" where
  "nest k 0 = JObj [(''type'', JStr ''string'')]"
| "nest k (Suc n) = JObj [(''$ref'', JStr (''#/'' @ hopKey k)), (hopKey k, nest (Suc k) n)]"

definition hopKeys :: "string \<Rightarrow> nat \<Rightarrow> nat \<Rightarrow> string list" where
  "hopKeys p k n = map (\<lambda>i. p @ ''::'' @ ''#/'' @ hopKey i) [k ..< k + n]"

text \<open>A union of a literal and a number.\<close>

definition unionExample :: json where
  "unionExample = JObj [(''oneOf'', JArr [JObj [(''const'', JStr ''a'')],
                                          JObj [(''type'', JStr ''number'')]])]"

text \<open>
  The lines of one field as the claim about objects describes them: the documentation text
  when there is one, then the indentation, the key, the optional marker unless the key is
  among the required names, and the type.
\<close>

definition docText :: "json \<Rightarrow> nat \<Rightarrow> string" where
  "docText node depth = (case generateJSDoc node depth of Inl e \<Rightarrow> [] | Inr doc \<Rightarrow> doc)"

definition fieldLines :: "nat \<Rightarrow> json list \<Rightarrow> string \<times> json \<Rightarrow> string \<Rightarrow> string list" where
  "fieldLines depth required kv ty =
     (if docText (snd kv) depth \<noteq> [] then [docText (snd kv) depth] else [])
     @ [repeat ''  '' depth @ safeKey (fst kv)
          @ (if JStr (fst kv) \<in> set required then [] else ''?'') @ '': '' @ ty @ '';'']"

text \<open>An object with a required and an optional property.\<close>

definition statsObject :: json where
  "statsObject = JObj [(''type'', JStr ''object''),
     (''properties'', JObj [(''hp'', JObj [(''type'', JStr ''integer'')]),
                            (''nick-name'', JObj [(''type'', JStr ''string'')])]),
     (''required'', JArr [JStr ''hp''])]"

text \<open>
  The logical path a cross-file reference is loaded from: the text before the first \<^verbatim>\<open>#\<close>,
  joined to the directory of the referencing document's path, normalized.
\<close>

definition refTargetPath :: "string \<Rightarrow> string \<Rightarrow> string" where
  "refTargetPath documentPath ref =
     posix_normalize
       (posix_join [posix_dirname documentPath, hd (splitOn CHR ''#'' ref)])"

text \<open>
  A store in which no path was read twice and every path read is cached; and the relation
  between two stores of which the later keeps every entry of the earlier.
\<close>

definition storeOK :: "store \<Rightarrow> bool" where
  "storeOK st = (distinct (reads st) \<and> set (reads st) \<subseteq> fst ` set (schemaCache st))"

definition cacheKept :: "store \<Rightarrow> store \<Rightarrow> bool" where
  "cacheKept st st' =
     (\<forall>p doc. map_of (schemaCache st) p = Some doc \<longrightarrow> map_of (schemaCache st') p = Some doc)"

text \<open>A segment that names a file or directory: not empty, not \<^verbatim>\<open>.\<close> or \<^verbatim>\<open>..\<close>, without a slash.\<close>

definition properName :: "string \<Rightarrow> bool" where
  "properName seg = (seg \<noteq> [] \<and> seg \<noteq> ''.'' \<and> seg \<noteq> ''..'' \<and> CHR ''/'' \<notin> set seg)"

text \<open>
  The logical path of a cross-file reference as the specification describes it. A document
  is addressed by the names of its directories, from the root of the repository, and its own
  name. The segments of the relative path are applied one after the other to the directory of
  the referencing document: \<^verbatim>\<open>.\<close> stays, \<^verbatim>\<open>..\<close> goes to the parent directory, a name goes down
  into it. There is no logical path when \<^verbatim>\<open>..\<close> would leave the repository.
\<close>

fun logicalPath :: "string list \<Rightarrow> string list \<Rightarrow> string list option" where
  "logicalPath dir [] = Some dir"
| "logicalPath dir (seg # segs) =
     (if seg = ''.'' then logicalPath dir segs
      else if seg = ''..'' then (if dir = [] then None else logicalPath (butlast dir) segs)
      else logicalPath (dir @ [seg]) segs)"

text \<open>The path of a document, and a reference written as its segments and its fragment.\<close>

definition documentPath :: "string list \<Rightarrow> string \<Rightarrow> string" where
  "documentPath dir leaf = join ''/'' (dir @ [leaf])"

definition relativeRef :: "string list \<Rightarrow> string \<Rightarrow> string" where
  "relativeRef segs fragment = join ''/'' segs @ fragment"

text \<open>A segment of a relative path: \<^verbatim>\<open>.\<close>, \<^verbatim>\<open>..\<close> or a name, which has no \<^verbatim>\<open>#\<close> in a reference.\<close>

definition refSegment :: "string \<Rightarrow> bool" where
  "refSegment seg = (CHR ''#'' \<notin> set seg \<and> (seg = ''.'' \<or> seg = ''..'' \<or> properName seg))"

text \<open>A definitions file shared by two documents of one directory.\<close>

definition commonDoc :: json where
  "commonDoc = JObj [(''definitions'', JObj [(''Base'', JObj [(''type'', JStr ''string'')])])]"

definition sharedRepo :: repo where
  "sharedRepo = map_of [(''source/a/common.json'', commonDoc)]"

definition entityContext :: SchemaContext where
  "entityContext = \<lparr>schema = Parsed (JObj [(''$ref'', JStr ''../common.json#/definitions/Base'')]),
                     path = ''source/a/b/entity.json''\<rparr>"

definition siblingContext :: SchemaContext where
  "siblingContext = \<lparr>schema = Parsed (JObj [(''$ref'', JStr ''./../common.json#/definitions/Base'')]),
                      path = ''source/a/b/other.json''\<rparr>"

definition sharedStore :: store where
  "sharedStore = \<lparr>schemaCache = [(''source/a/common.json'', commonDoc)],
                   reads = [''source/a/common.json'']\<rparr>"

declare jsonTypeToTsType.simps [simp del] renderObject.simps [simp del]

section \<open>Union construction: de-duplication and collapse\<close>

lemma setOrder_foldl:
  "foldl (\<lambda>acc x. if x \<in> set acc then acc else acc @ [x]) acc xs
     = acc @ rev (remdups (rev (filter (\<lambda>x. x \<notin> set acc) xs)))"
proof (induction xs arbitrary: acc)
  case Nil
  then show ?case by simp
next
  case (Cons x xs)
  show ?case
  proof (cases "x \<in> set acc")
    case True
    then show ?thesis using Cons.IH [of acc] by simp
  next
    case False
    have f: "filter (\<lambda>y. y \<notin> set (acc @ [x])) xs
               = filter (\<lambda>y. y \<noteq> x) (filter (\<lambda>y. y \<notin> set acc) xs)"
      by (induction xs) auto
    have r: "remdups (zs @ [x]) = remdups (filter (\<lambda>y. y \<noteq> x) zs) @ [x]" for zs :: "'a list"
      by (induction zs) auto
    have "rev (remdups (rev (filter (\<lambda>y. y \<notin> set acc) (x # xs))))
            = x # rev (remdups (rev (filter (\<lambda>y. y \<noteq> x) (filter (\<lambda>y. y \<notin> set acc) xs))))"
      using False by (simp add: r rev_filter)
    then show ?thesis using False Cons.IH [of "acc @ [x]"] f
      by simp
  qed
qed

lemma setOrder_remdups: "setOrder xs = rev (remdups (rev xs))"
  using setOrder_foldl [of "[]" xs] by (simp add: setOrder_def)

lemma distinct_setOrder: "distinct (setOrder xs)"
  by (simp add: setOrder_remdups)

lemma set_setOrder: "set (setOrder xs) = set xs"
  by (simp add: setOrder_remdups)

text \<open>
  Claim C5. \<open>wrapUnion\<close> drops the empty texts and keeps the first occurrence of every other
  text, in order: the alternatives are distinct and are exactly the non-empty inputs. No
  alternative gives \<^verbatim>\<open>unknown\<close>, a single one is returned itself, two or more are joined with
  \<^verbatim>\<open> | \<close>. The schema \<^verbatim>\<open>{oneOf: [{const: "a"}, {const: "a"}, {const: "b"}]}\<close> synthesizes to
  \<^verbatim>\<open>'a' | 'b'\<close>, in every repository, context and store.
\<close>

theorem wrapUnion_dedup_collapse:
  "wrapUnion types =
     (case rev (remdups (rev (filter (\<lambda>t. t \<noteq> []) types))) of
        [] \<Rightarrow> ''unknown''
      | [a] \<Rightarrow> a
      | a # b # alts \<Rightarrow> join '' | '' (a # b # alts))
   \<and> distinct (rev (remdups (rev (filter (\<lambda>t. t \<noteq> []) types))))
   \<and> set (rev (remdups (rev (filter (\<lambda>t. t \<noteq> []) types)))) = set types - {[]}
   \<and> jsonTypeToTsType repo
        (Parsed (JObj [(''oneOf'', JArr [JObj [(''const'', JStr ''a'')],
                                         JObj [(''const'', JStr ''a'')],
                                         JObj [(''const'', JStr ''b'')]])]))
        context 0 st
      = Inr ([CHR 0x27, CHR ''a'', CHR 0x27] @ '' | '' @ [CHR 0x27, CHR ''b'', CHR 0x27], st)"
proof -
  have "wrapUnion types =
     (case rev (remdups (rev (filter (\<lambda>t. t \<noteq> []) types))) of
        [] \<Rightarrow> ''unknown''
      | [a] \<Rightarrow> a
      | a # b # alts \<Rightarrow> join '' | '' (a # b # alts))"
    by (simp add: wrapUnion_def setOrder_remdups Let_def split: list.splits)
  moreover have "set (rev (remdups (rev (filter (\<lambda>t. t \<noteq> []) types)))) = set types - {[]}"
    by auto
  moreover have "jsonTypeToTsType repo
        (Parsed (JObj [(''oneOf'', JArr [JObj [(''const'', JStr ''a'')],
                                         JObj [(''const'', JStr ''a'')],
                                         JObj [(''const'', JStr ''b'')]])]))
        context 0 st
      = Inr ([CHR 0x27, CHR ''a'', CHR 0x27] @ '' | '' @ [CHR 0x27, CHR ''b'', CHR 0x27], st)"
    by (simp add: jsonTypeToTsType.simps wrapUnion_def setOrder_def)
  ultimately show ?thesis by simp
qed

section \<open>Pointer Resolver: totality, the root rule and unescaping\<close>

lemma inOperator_found:
  "inOperator part obj = Inr True \<longleftrightarrow> (\<exists>v. member obj part = Inr (Some v))"
  by (auto simp: inOperator_def split: sum.splits)

lemma member_Inr:
  assumes "truthyValue current" "objectOf current = Some obj"
  shows "\<exists>found. member obj part = Inr found"
proof (cases obj)
  case NullObject
  then have "current = Parsed JNull" using assms(2) by (auto elim: objectOf.elims)
  then show ?thesis using assms(1) by simp
next
  case (PrototypeObject p)
  then show ?thesis by (cases p) simp_all
qed simp_all

lemma hasPart_iff: "hasPart current part \<longleftrightarrow> follow current part \<noteq> None"
  by (auto simp: hasPart_def follow_def inOperator_def split: option.splits sum.splits)

lemma walk_step:
  "walk current (part # parts) =
     (case follow current part of Some v \<Rightarrow> walk v parts | None \<Rightarrow> Inr None)"
  using member_Inr [of current _ part]
  by (auto simp: follow_def inOperator_def split: option.splits sum.splits)

lemma walk_total: "\<exists>r. walk current parts = Inr r"
proof (induction parts arbitrary: current)
  case Nil
  show ?case by simp
next
  case (Cons part parts)
  show ?case
    unfolding walk_step using Cons.IH by (auto split: option.splits)
qed

lemma walk_append:
  "walk current (pre @ post) =
     (case walk current pre of Inr (Some v) \<Rightarrow> walk v post | r \<Rightarrow> r)"
proof (induction pre arbitrary: current)
  case Nil
  show ?case by simp
next
  case (Cons part pre)
  show ?case
    unfolding append_Cons walk_step using Cons.IH by (auto split: option.splits)
qed

lemma walk_absent_iff:
  "walk current parts = Inr None \<longleftrightarrow>
     (\<exists>pre part post v. parts = pre @ part # post \<and> walk current pre = Inr (Some v)
        \<and> \<not> hasPart v part)"
proof (induction parts arbitrary: current)
  case Nil
  show ?case by simp
next
  case (Cons p ps)
  show ?case
  proof (cases "hasPart current p")
    case False
    have "walk current (p # ps) = Inr None"
      using False by (simp add: walk_step hasPart_iff del: walk.simps)
    moreover have "p # ps = [] @ p # ps \<and> walk current [] = Inr (Some current) \<and> \<not> hasPart current p"
      using False by simp
    ultimately show ?thesis by blast
  next
    case True
    then obtain v where v: "follow current p = Some v" by (auto simp: hasPart_iff)
    have step: "walk current (p # ps) = walk v ps" using v by (simp add: walk_step del: walk.simps)
    show ?thesis
    proof
      assume "walk current (p # ps) = Inr None"
      then have "walk v ps = Inr None" using step by simp
      then obtain pre part post u where
        "ps = pre @ part # post" "walk v pre = Inr (Some u)" "\<not> hasPart u part"
        using Cons.IH [of v] by blast
      then have "p # ps = (p # pre) @ part # post \<and> walk current (p # pre) = Inr (Some u)
                   \<and> \<not> hasPart u part"
        using v by (simp add: walk_step del: walk.simps)
      then show "\<exists>pre part post v. p # ps = pre @ part # post \<and> walk current pre = Inr (Some v)
                   \<and> \<not> hasPart v part"
        by blast
    next
      assume "\<exists>pre part post v. p # ps = pre @ part # post \<and> walk current pre = Inr (Some v)
                   \<and> \<not> hasPart v part"
      then obtain pre part post u where
        h: "p # ps = pre @ part # post" "walk current pre = Inr (Some u)" "\<not> hasPart u part"
        by blast
      have "walk current (pre @ part # post) = Inr None"
        using h(2,3) by (simp add: walk_append walk_step hasPart_iff del: walk.simps)
      then show "walk current (p # ps) = Inr None" using h(1) by simp
    qed
  qed
qed

lemma indexed_keys: "map fst (indexed xs) = map showNat [0 ..< length xs]"
  by (simp add: indexed_def del: showNat.simps)

lemma schemaKeys_own:
  assumes "k \<in> set schemaKeys"
  shows "member (PlainObject kvs) k = Inr (map_option Parsed (getProp (Parsed (JObj kvs)) k))"
    and "member (ArrayObject xs) k = Inr (map_option Parsed (getProp (Parsed (JArr xs)) k))"
    and "member (PrototypeObject p) k = Inr (map_option Parsed (getProp (Prototype p) k))"
proof -
  have o: "objectFunction k = None"
    using assms by (auto simp: schemaKeys_def objectFunction_def objectPrototypeNames_def)
  have a: "arrayFunction k = None"
    using assms o by (auto simp: schemaKeys_def arrayFunction_def arrayPrototypeNames_def)
  have n: "k \<noteq> ''__proto__''" "k \<noteq> ''length''" using assms by (auto simp: schemaKeys_def)
  show "member (PlainObject kvs) k = Inr (map_option Parsed (getProp (Parsed (JObj kvs)) k))"
    using o n by (simp split: option.splits)
  show "member (ArrayObject xs) k = Inr (map_option Parsed (getProp (Parsed (JArr xs)) k))"
    using a n by (simp split: option.splits)
  show "member (PrototypeObject p) k = Inr (map_option Parsed (getProp (Prototype p) k))"
    using o a n by (cases p) simp_all
qed

text \<open>
  Claim C8. \<open>getByPointer\<close> never throws: for every root and pointer it returns a node or
  absent. It returns absent exactly when the pointer has the form \<^verbatim>\<open>#/...\<close> and, at some part,
  the value reached so far cannot be followed: it is falsy, or not an object, or it has no
  member of that name, own or inherited; whatever parts follow do not matter. A parsed object
  has the part when it is one of its keys, or \<^verbatim>\<open>__proto__\<close>, or the name of a member of
  \<^verbatim>\<open>Object.prototype\<close>; \<^verbatim>\<open>null\<close>, a string, a number, a boolean and a function have no part.
  A pointer whose parts can all be followed returns the value it leads to, which is a
  function for \<^verbatim>\<open>#/toString\<close> and the value \<^verbatim>\<open>null\<close> at the end of the chain of prototypes.
\<close>

theorem getByPointer_total_absent:
  "(\<exists>r. getByPointer root pointer = Inr r)
   \<and> (getByPointer root pointer = Inr None \<longleftrightarrow>
        startsWith pointer ''#/''
        \<and> (\<exists>pre part post current.
              pointerParts pointer = pre @ part # post
              \<and> walk root pre = Inr (Some current)
              \<and> \<not> hasPart current part))
   \<and> (hasPart (Parsed (JObj kvs)) part \<longleftrightarrow>
        part \<in> fst ` set kvs \<or> part = ''__proto__'' \<or> part \<in> set objectPrototypeNames)
   \<and> (hasPart (Parsed (JArr xs)) part \<longleftrightarrow>
        part = ''length'' \<or> part \<in> set (map showNat [0 ..< length xs]) \<or> part = ''__proto__''
        \<or> part \<in> set arrayPrototypeNames \<or> part \<in> set objectPrototypeNames)
   \<and> \<not> hasPart (Parsed JNull) part \<and> \<not> hasPart (Parsed (JStr s)) part
   \<and> \<not> hasPart (Parsed (JNum n)) part \<and> \<not> hasPart (Parsed (JBool b)) part
   \<and> \<not> hasPart (BuiltinFunction p k) part
   \<and> getByPointer (Parsed (JObj [(''a'', JNum 5)])) ''#/a/b/c'' = Inr None
   \<and> getByPointer (Parsed (JObj [(''a'', JNull)])) ''#/a/b'' = Inr None
   \<and> getByPointer (Parsed (JObj [(''a'', JNum 5)])) ''#/b'' = Inr None
   \<and> getByPointer (Parsed (JObj [])) ''#/toString''
       = Inr (Some (BuiltinFunction ObjectPrototype ''toString''))
   \<and> getByPointer (Parsed (JObj [])) ''#/toString/name'' = Inr None
   \<and> getByPointer (Parsed (JArr [JNum 7])) ''#/__proto__/__proto__/__proto__''
       = Inr (Some (Parsed JNull))"
proof -
  have total: "\<exists>r. getByPointer root pointer = Inr r"
    using walk_total [of root "pointerParts pointer"] by (auto simp: getByPointer_def)
  have absent: "getByPointer root pointer = Inr None \<longleftrightarrow>
        startsWith pointer ''#/''
        \<and> (\<exists>pre part post current.
              pointerParts pointer = pre @ part # post
              \<and> walk root pre = Inr (Some current)
              \<and> \<not> hasPart current part)"
    using walk_absent_iff [of root "pointerParts pointer"] by (auto simp: getByPointer_def)
  have obj: "hasPart (Parsed (JObj kvs)) part \<longleftrightarrow>
        part \<in> fst ` set kvs \<or> part = ''__proto__'' \<or> part \<in> set objectPrototypeNames"
  proof -
    have "map_of kvs part = None \<longleftrightarrow> part \<notin> fst ` set kvs"
      by (simp add: map_of_eq_None_iff)
    then show ?thesis
      by (cases "map_of kvs part")
         (auto simp: hasPart_def inOperator_def objectFunction_def)
  qed
  have arr: "hasPart (Parsed (JArr xs)) part \<longleftrightarrow>
        part = ''length'' \<or> part \<in> set (map showNat [0 ..< length xs]) \<or> part = ''__proto__''
        \<or> part \<in> set arrayPrototypeNames \<or> part \<in> set objectPrototypeNames"
  proof -
    have "map_of (indexed xs) part = None \<longleftrightarrow> part \<notin> set (map fst (indexed xs))"
      by (simp add: map_of_eq_None_iff)
    then have "map_of (indexed xs) part = None
                 \<longleftrightarrow> part \<notin> set (map showNat [0 ..< length xs])"
      unfolding indexed_keys .
    then show ?thesis
      by (cases "map_of (indexed xs) part")
         (auto simp: hasPart_def inOperator_def arrayFunction_def objectFunction_def
               simp del: showNat.simps)
  qed
  have none: "\<not> hasPart (Parsed JNull) part" "\<not> hasPart (Parsed (JStr s)) part"
    "\<not> hasPart (Parsed (JNum n)) part" "\<not> hasPart (Parsed (JBool b)) part"
    "\<not> hasPart (BuiltinFunction p k) part"
    by (simp_all add: hasPart_def)
  have ex: "getByPointer (Parsed (JObj [(''a'', JNum 5)])) ''#/a/b/c'' = Inr None"
    "getByPointer (Parsed (JObj [(''a'', JNull)])) ''#/a/b'' = Inr None"
    "getByPointer (Parsed (JObj [(''a'', JNum 5)])) ''#/b'' = Inr None"
    "getByPointer (Parsed (JObj [])) ''#/toString''
       = Inr (Some (BuiltinFunction ObjectPrototype ''toString''))"
    "getByPointer (Parsed (JObj [])) ''#/toString/name'' = Inr None"
    "getByPointer (Parsed (JArr [JNum 7])) ''#/__proto__/__proto__/__proto__''
       = Inr (Some (Parsed JNull))"
    by (simp_all add: getByPointer_def pointerParts_def unescapePart_def startsWith_def
          inOperator_def objectFunction_def arrayFunction_def objectPrototypeNames_def
          arrayPrototypeNames_def indexed_def)
  show ?thesis using total absent obj arr none ex by blast
qed

text \<open>
  Claim C9. A pointer equal to \<^verbatim>\<open>#\<close>, or not starting with \<^verbatim>\<open>#/\<close>, gives the root node
  unchanged. For a pointer \<^verbatim>\<open>#/a/b/c\<close> the text after \<^verbatim>\<open>#/\<close> is split at \<^verbatim>\<open>/\<close> and every part is
  unescaped before the lookup: \<^verbatim>\<open>~1\<close> to \<^verbatim>\<open>/\<close>, then \<^verbatim>\<open>~0\<close> to \<^verbatim>\<open>~\<close>, then \<^verbatim>\<open>%3A\<close> to \<^verbatim>\<open>:\<close>.
\<close>

theorem getByPointer_root_and_unescape:
  "getByPointer root ''#'' = Inr (Some root)
   \<and> getByPointer root pointer =
       (if startsWith pointer ''#/''
        then walk root
               (map (\<lambda>part. replaceAll ''%3A'' '':''
                               (replaceAll ''~0'' ''~'' (replaceAll ''~1'' ''/'' part)))
                    (splitOn CHR ''/'' (drop 2 pointer)))
        else Inr (Some root))
   \<and> unescapePart ''a~1b'' = ''a/b''
   \<and> unescapePart ''a~0b'' = ''a~b''
   \<and> unescapePart ''a%3Ab'' = ''a:b''
   \<and> unescapePart ''~01'' = ''~1''
   \<and> getByPointer (Parsed (JObj [(''minecraft:health'', JObj [(''a/b'', node)])]))
         ''#/minecraft%3Ahealth/a~1b'' = Inr (Some (Parsed node))"
proof -
  have u: "unescapePart = (\<lambda>part. replaceAll ''%3A'' '':''
                               (replaceAll ''~0'' ''~'' (replaceAll ''~1'' ''/'' part)))"
    by (rule ext) (simp add: unescapePart_def)
  have "getByPointer root ''#'' = Inr (Some root)"
    by (simp add: getByPointer_def startsWith_def)
  moreover have "getByPointer root pointer =
       (if startsWith pointer ''#/''
        then walk root
               (map (\<lambda>part. replaceAll ''%3A'' '':''
                               (replaceAll ''~0'' ''~'' (replaceAll ''~1'' ''/'' part)))
                    (splitOn CHR ''/'' (drop 2 pointer)))
        else Inr (Some root))"
    by (simp add: getByPointer_def pointerParts_def u)
  moreover have "unescapePart ''a~1b'' = ''a/b''" "unescapePart ''a~0b'' = ''a~b''"
    "unescapePart ''a%3Ab'' = ''a:b''" "unescapePart ''~01'' = ''~1''"
    by (simp_all add: unescapePart_def startsWith_def)
  moreover have "getByPointer (Parsed (JObj [(''minecraft:health'', JObj [(''a/b'', node)])]))
         ''#/minecraft%3Ahealth/a~1b'' = Inr (Some (Parsed node))"
    by (simp add: getByPointer_def pointerParts_def unescapePart_def startsWith_def inOperator_def)
  ultimately show ?thesis by simp
qed

section \<open>References: one step of resolution\<close>

lemma jsonTypeToTsType_ref:
  assumes "getProp node ''$ref'' = Some (JStr ref)" "ref \<noteq> []" "depth \<le> 20"
  shows "jsonTypeToTsType repo node context depth st =
           (case resolveRef repo ref context st of
              Inl e \<Rightarrow> Inl e
            | Inr (None, st') \<Rightarrow> Inr (''unknown'', st')
            | Inr (Some target, st') \<Rightarrow>
                jsonTypeToTsType repo (schema target) target (depth + 1) st')"
proof -
  have "node \<noteq> Parsed JNull" using assms(1) by auto
  then show ?thesis using assms
    by (subst jsonTypeToTsType.simps) simp
qed

lemma resolveSchema_ref:
  assumes "getProp node ''$ref'' = Some (JStr ref)" "ref \<noteq> []"
  shows "resolveSchema repo node context seen st =
           (if path context @ ''::'' @ ref \<in> seen
            then Some (Inr (\<lparr>schema = node, path = path context\<rparr>, st))
            else (case resolveRef repo ref context st of
                    Inl e \<Rightarrow> Some (Inl e)
                  | Inr (None, st') \<Rightarrow> Some (Inr (\<lparr>schema = node, path = path context\<rparr>, st'))
                  | Inr (Some target, st') \<Rightarrow>
                      resolveSchema repo (schema target) target
                        (insert (path context @ ''::'' @ ref) seen) st'))"
proof -
  have "node \<noteq> Parsed JNull" using assms(1) by auto
  then show ?thesis using assms
    by (subst resolveSchema.simps) (auto simp: Let_def split: sum.splits option.splits prod.splits)
qed

lemma resolveSchema_plain:
  "node \<noteq> Parsed JNull \<Longrightarrow> \<not> truthyU (getProp node ''$ref'')
   \<Longrightarrow> resolveSchema repo node context seen st
         = Some (Inr (\<lparr>schema = node, path = path context\<rparr>, st))"
  by (subst resolveSchema.simps) simp

lemmas pointer_eval = resolveRef_def startsWith_def getByPointer_def pointerParts_def
  unescapePart_def targetAt_def inOperator_def objectFunction_def objectPrototypeNames_def

lemmas path_eval = resolveRef_def startsWith_def posix_dirname_def posix_join_def
  posix_normalize_def normalizeString_def loadSchemaContext_def emptyStore_def Let_def

lemma cycle_step1:
  "resolveRef cycleRepo ''b.json'' cycleCtxA emptyStore
     = Inr (Some cycleCtxB, \<lparr>schemaCache = [(''b.json'', cycleB)], reads = [''b.json'']\<rparr>)"
  by (simp add: path_eval cycleRepo_def cycleCtxA_def cycleCtxB_def)

lemma cycle_step2:
  "resolveRef cycleRepo ''a.json'' cycleCtxB
       \<lparr>schemaCache = [(''b.json'', cycleB)], reads = [''b.json'']\<rparr>
     = Inr (Some cycleCtxA, \<lparr>schemaCache = [(''b.json'', cycleB), (''a.json'', cycleA)],
                             reads = [''b.json'', ''a.json'']\<rparr>)"
  by (simp add: path_eval cycleRepo_def cycleCtxA_def cycleCtxB_def)

text \<open>The store through a load and through a resolution.\<close>

lemma cacheKept_refl: "cacheKept st st"
  by (simp add: cacheKept_def)

lemma cacheKept_trans: "cacheKept a b \<Longrightarrow> cacheKept b c \<Longrightarrow> cacheKept a c"
  by (simp add: cacheKept_def)

lemma loadSchemaContext_hit:
  "map_of (schemaCache st) p = Some doc
   \<Longrightarrow> loadSchemaContext repo p st = Inr (\<lparr>schema = Parsed doc, path = p\<rparr>, st)"
  by (simp add: loadSchemaContext_def)

lemma loadSchemaContext_cached:
  assumes "loadSchemaContext repo p st = Inr (c, st')"
  shows "(\<exists>doc. map_of (schemaCache st') p = Some doc \<and> schema c = Parsed doc) \<and> path c = p
         \<and> cacheKept st st' \<and> (storeOK st \<longrightarrow> storeOK st')"
proof (cases "map_of (schemaCache st) p")
  case (Some doc)
  then show ?thesis using assms by (auto simp: loadSchemaContext_def cacheKept_def)
next
  case None
  then obtain doc where d: "repo p = Some doc" "c = \<lparr>schema = Parsed doc, path = p\<rparr>"
    "st' = st\<lparr>schemaCache := schemaCache st @ [(p, doc)], reads := reads st @ [p]\<rparr>"
    using assms by (auto simp: loadSchemaContext_def split: option.splits)
  have notin: "p \<notin> fst ` set (schemaCache st)" using None by (simp add: map_of_eq_None_iff)
  have "\<exists>doc. map_of (schemaCache st') p = Some doc \<and> schema c = Parsed doc"
    using d None by (simp add: map_add_def)
  moreover have "cacheKept st st'"
    using d by (auto simp: cacheKept_def map_add_def)
  moreover have "storeOK st \<longrightarrow> storeOK st'"
    using d notin by (auto simp: storeOK_def)
  ultimately show ?thesis using d by simp
qed

lemma walk_Inr: "walk v parts \<noteq> Inl e"
  using walk_total [of v parts] by auto

lemma getByPointer_Inr: "getByPointer v p \<noteq> Inl e"
  using walk_total [of v "pointerParts p"] by (auto simp: getByPointer_def)

lemma resolveRef_external:
  assumes "\<not> startsWith ref ''#''"
  shows "resolveRef repo ref context st =
           (case loadSchemaContext repo (refTargetPath (path context) ref) st of
              Inl e \<Rightarrow> Inl e
            | Inr (targetContext, st') \<Rightarrow>
                (case tl (take 2 (splitOn CHR ''#'' ref)) of
                   [frag] \<Rightarrow>
                     if frag \<noteq> [] \<and> startsWith frag ''/''
                     then (case getByPointer (schema targetContext) (CHR ''#'' # frag) of
                             Inl e \<Rightarrow> Inl e
                           | Inr target \<Rightarrow>
                               Inr (targetAt target (refTargetPath (path context) ref), st'))
                     else Inr (Some targetContext, st')
                 | _ \<Rightarrow> Inr (Some targetContext, st')))"
proof -
  have "\<not> startsWith ref ''#/''" using assms by (auto simp: startsWith_def take_Suc_conv_app_nth dest: arg_cong [where f = "take 1"])
  then show ?thesis using assms
    by (auto simp: resolveRef_def refTargetPath_def Let_def split: sum.splits prod.splits list.splits)
qed


lemma resolveRef_store:
  assumes "resolveRef repo ref context st = Inr (r, st')"
  shows "cacheKept st st' \<and> (storeOK st \<longrightarrow> storeOK st')"
proof (cases "startsWith ref ''#''")
  case True
  then have "st' = st" using assms
    by (auto simp: resolveRef_def split: if_splits sum.splits)
  then show ?thesis by (simp add: cacheKept_refl)
next
  case False
  from assms obtain c where "loadSchemaContext repo (refTargetPath (path context) ref) st = Inr (c, st')"
    unfolding resolveRef_external [OF False]
    by (auto split: sum.splits prod.splits list.splits if_splits)
  then show ?thesis using loadSchemaContext_cached by blast
qed

lemma resolveRef_again:
  assumes "\<not> startsWith ref ''#''" "resolveRef repo ref context st = Inr (r, st')"
    and "path context' = path context"
  shows "resolveRef repo ref context' st' = Inr (r, st')"
proof -
  from assms(2) obtain c where
    l: "loadSchemaContext repo (refTargetPath (path context) ref) st = Inr (c, st')"
    unfolding resolveRef_external [OF assms(1)]
    by (auto split: sum.splits prod.splits list.splits if_splits)
  from loadSchemaContext_cached [OF l] obtain doc where
    d: "map_of (schemaCache st') (refTargetPath (path context) ref) = Some doc"
       "schema c = Parsed doc" "path c = refTargetPath (path context) ref"
    by blast
  have c: "c = \<lparr>schema = Parsed doc, path = refTargetPath (path context) ref\<rparr>"
    using d(2,3) by (cases c) simp
  have l': "loadSchemaContext repo (refTargetPath (path context) ref) st' = Inr (c, st')"
    using loadSchemaContext_hit [OF d(1), of repo] c by simp
  note e' = resolveRef_external [OF assms(1), of repo context' st', unfolded assms(3)]
  show ?thesis
    using assms(2) by (simp add: resolveRef_external [OF assms(1), of repo "context" st] e' l l')
qed

lemma resolveRef_hit:
  assumes "\<not> startsWith ref ''#''"
    and "map_of (schemaCache st) (refTargetPath (path context) ref) = Some doc"
  shows "\<exists>r. resolveRef repo ref context st = Inr (r, st)"
  unfolding resolveRef_external [OF assms(1)] loadSchemaContext_hit [OF assms(2)]
  using getByPointer_Inr
  by (auto split: sum.splits list.splits)

section \<open>Cycles in \<open>resolveSchema\<close>\<close>

text \<open>
  Claim C7. When the node carries a reference whose key, the document path and the reference
  string, is already in the visited set, \<open>resolveSchema\<close> returns: the result is the node
  itself, still carrying its reference, with the path of the context, and the store is
  untouched. No exception is raised.
\<close>

theorem resolveSchema_revisit:
  assumes "getProp node ''$ref'' = Some (JStr ref)" "ref \<noteq> []"
    and "path context @ ''::'' @ ref \<in> seen"
  shows "resolveSchema repo node context seen st
           = Some (Inr (\<lparr>schema = node, path = path context\<rparr>, st))"
  using assms by (simp add: resolveSchema_ref)

text \<open>
  The two documents that refer to each other, from an empty visited set: the third call finds
  the first key again and returns the first node.
\<close>

theorem resolveSchema_revisit_witness:
  "resolveSchema cycleRepo (Parsed cycleA) cycleCtxA {} emptyStore
     = Some (Inr (cycleCtxA, \<lparr>schemaCache = [(''b.json'', cycleB), (''a.json'', cycleA)],
                               reads = [''b.json'', ''a.json'']\<rparr>))"
proof -
  have a: "getProp (Parsed cycleA) ''$ref'' = Some (JStr ''b.json'')" by (simp add: cycleA_def)
  have b: "getProp (Parsed cycleB) ''$ref'' = Some (JStr ''a.json'')" by (simp add: cycleB_def)
  have pa: "path cycleCtxA = ''a.json''" "schema cycleCtxA = Parsed cycleA" by (simp_all add: cycleCtxA_def)
  have pb: "path cycleCtxB = ''b.json''" "schema cycleCtxB = Parsed cycleB" by (simp_all add: cycleCtxB_def)
  have last: "resolveSchema cycleRepo (Parsed cycleA) cycleCtxA {''b.json::a.json'', ''a.json::b.json''}
                \<lparr>schemaCache = [(''b.json'', cycleB), (''a.json'', cycleA)],
                   reads = [''b.json'', ''a.json'']\<rparr>
              = Some (Inr (\<lparr>schema = Parsed cycleA, path = path cycleCtxA\<rparr>,
                   \<lparr>schemaCache = [(''b.json'', cycleB), (''a.json'', cycleA)],
                      reads = [''b.json'', ''a.json'']\<rparr>))"
    using resolveSchema_revisit [OF a, of cycleCtxA "{''b.json::a.json'', ''a.json::b.json''}"]
    by (simp add: pa)
  have "resolveSchema cycleRepo (Parsed cycleA) cycleCtxA {} emptyStore
          = resolveSchema cycleRepo (Parsed cycleB) cycleCtxB {''a.json::b.json''}
              \<lparr>schemaCache = [(''b.json'', cycleB)], reads = [''b.json'']\<rparr>"
    by (simp add: resolveSchema_ref [OF a] cycle_step1 pa pb)
  also have "\<dots> = resolveSchema cycleRepo (Parsed cycleA) cycleCtxA {''b.json::a.json'', ''a.json::b.json''}
                \<lparr>schemaCache = [(''b.json'', cycleB), (''a.json'', cycleA)],
                   reads = [''b.json'', ''a.json'']\<rparr>"
    by (simp add: resolveSchema_ref [OF b] cycle_step2 pa pb)
  finally show ?thesis using last by (simp add: cycleCtxA_def)
qed

section \<open>References that cannot be resolved\<close>

text \<open>
  Claim C1 as stated fails for a reference to a document that is absent: the load error of
  \<open>resolveRef\<close> comes out of the synthesizer and out of \<open>extractComponents\<close>, and the second
  component is never compiled.
\<close>

theorem absent_document_aborts:
  "jsonTypeToTsType Map.empty (Parsed missingFileRef) missingFileRoot 0 emptyStore
     = Inl (SchemaLoadError ''source/missing.json'')
   \<and> extractComponents Map.empty missingFileRoot emptyStore
     = Some (Inl (SchemaLoadError ''source/missing.json''))"
proof -
  have r: "getProp (Parsed missingFileRef) ''$ref'' = Some (JStr ''missing.json'')"
    by (simp add: missingFileRef_def)
  have l: "resolveRef Map.empty ''missing.json'' missingFileRoot emptyStore
             = Inl (SchemaLoadError ''source/missing.json'')"
    by (simp add: path_eval missingFileRoot_def)
  have "jsonTypeToTsType Map.empty (Parsed missingFileRef) missingFileRoot 0 emptyStore
     = Inl (SchemaLoadError ''source/missing.json'')"
    by (simp add: jsonTypeToTsType_ref [OF r] l)
  moreover have "extractComponents Map.empty missingFileRoot emptyStore
     = Some (Inl (SchemaLoadError ''source/missing.json''))"
    by (simp add: extractComponents_def missingFileRoot_def resolveSchema_ref [OF r]
          l [unfolded missingFileRoot_def])
  ultimately show ?thesis by simp
qed

text \<open>
  A component whose pointer leads nowhere in the root document is synthesized in the context
  that \<open>resolveSchema\<close> returns, whose schema is the component's own node. There the pointer can
  lead somewhere: the reference that had no target in the root is followed into the node, and
  what it finds is synthesized, here with a \<^verbatim>\<open>TypeError\<close> that ends the extraction.
\<close>

lemma pointer_into_own_node:
  "resolveRef Map.empty ''#/a'' selfTargetRoot emptyStore = Inr (None, emptyStore)
   \<and> extractComponents Map.empty selfTargetRoot emptyStore = Some (Inl TypeError)"
proof -
  have r: "getProp (Parsed selfTargetRef) ''$ref'' = Some (JStr ''#/a'')"
    by (simp add: selfTargetRef_def)
  have l1: "resolveRef Map.empty ''#/a'' selfTargetRoot emptyStore = Inr (None, emptyStore)"
    by (simp add: pointer_eval inOperator_def objectFunction_def objectPrototypeNames_def
          selfTargetRoot_def)
  have l2: "resolveRef Map.empty ''#/a'' \<lparr>schema = Parsed selfTargetRef, path = ''source/components.json''\<rparr>
              emptyStore
            = Inr (Some \<lparr>schema = Parsed (JObj [(''oneOf'', JNum 5)]),
                          path = ''source/components.json''\<rparr>, emptyStore)"
    by (simp add: pointer_eval inOperator_def selfTargetRef_def)
  have t: "jsonTypeToTsType Map.empty (Parsed (JObj [(''oneOf'', JNum 5)])) c (Suc 0) emptyStore
             = Inl TypeError" for c
    by (simp add: jsonTypeToTsType.simps)
  have "extractComponents Map.empty selfTargetRoot emptyStore = Some (Inl TypeError)"
    using l1
    by (simp add: extractComponents_def selfTargetRoot_def resolveSchema_ref [OF r]
          jsonTypeToTsType_ref [OF r] l2 t)
  then show ?thesis using l1 by simp
qed

text \<open>
  Claim C1, amended. For a node with a reference and a depth of at most 20: when \<open>resolveRef\<close>
  returns no target, the node synthesizes to \<^verbatim>\<open>unknown\<close>; when \<open>resolveRef\<close> throws (the
  target document cannot be loaded), the exception comes out of the synthesizer and ends the
  extraction. In the extraction, a component whose reference has no target in the root
  context is synthesized in the context that \<open>resolveSchema\<close> returns, whose schema is the
  component's node: when the reference has no target there either, the component gets the
  type \<^verbatim>\<open>unknown\<close> and the extraction goes on with the components that follow. That second
  condition always holds for a reference to another document, which is resolved from the
  path of the context alone.
\<close>

theorem unresolved_ref_degrades:
  assumes "getProp (Parsed node) ''$ref'' = Some (JStr ref)" and "ref \<noteq> []" and "depth \<le> 20"
  shows "(resolveRef repo ref context st = Inr (None, st')
            \<longrightarrow> jsonTypeToTsType repo (Parsed node) context depth st = Inr (''unknown'', st'))
       \<and> (resolveRef repo ref context st = Inl e
            \<longrightarrow> jsonTypeToTsType repo (Parsed node) context depth st = Inl e
                \<and> extractLoop repo context ((key, node) # rest) st = Some (Inl e))
       \<and> (resolveRef repo ref context st = Inr (None, st')
          \<and> resolveRef repo ref \<lparr>schema = Parsed node, path = path context\<rparr> st' = Inr (None, st'')
            \<longrightarrow> extractLoop repo context ((key, node) # rest) st =
                  (case extractLoop repo context rest st'' of
                     None \<Rightarrow> None
                   | Some (Inl e') \<Rightarrow> Some (Inl e')
                   | Some (Inr (results, st3)) \<Rightarrow>
                       Some (Inr (\<lparr>name = key, type = ''unknown'',
                                   description = nullish (jsonProp node ''description'')
                                                   (jsonProp node ''description''),
                                   title = nullish (jsonProp node ''title'')
                                             (jsonProp node ''title'')\<rparr> # results,
                                  st3))))
       \<and> (\<not> startsWith ref ''#'' \<and> resolveRef repo ref context st = Inr (None, st')
            \<longrightarrow> resolveRef repo ref \<lparr>schema = Parsed node, path = path context\<rparr> st'
                  = Inr (None, st'))"
proof -
  have one: "resolveRef repo ref context st = Inr (None, st')
            \<longrightarrow> jsonTypeToTsType repo (Parsed node) context depth st = Inr (''unknown'', st')"
    by (simp add: jsonTypeToTsType_ref [OF assms])
  have two: "resolveRef repo ref context st = Inl e
            \<longrightarrow> jsonTypeToTsType repo (Parsed node) context depth st = Inl e
                \<and> extractLoop repo context ((key, node) # rest) st = Some (Inl e)"
    by (simp add: jsonTypeToTsType_ref [OF assms] resolveSchema_ref [OF assms(1,2)])
  have three: "resolveRef repo ref context st = Inr (None, st')
          \<and> resolveRef repo ref \<lparr>schema = Parsed node, path = path context\<rparr> st' = Inr (None, st'')
            \<longrightarrow> extractLoop repo context ((key, node) # rest) st =
                  (case extractLoop repo context rest st'' of
                     None \<Rightarrow> None
                   | Some (Inl e') \<Rightarrow> Some (Inl e')
                   | Some (Inr (results, st3)) \<Rightarrow>
                       Some (Inr (\<lparr>name = key, type = ''unknown'',
                                   description = nullish (jsonProp node ''description'')
                                                   (jsonProp node ''description''),
                                   title = nullish (jsonProp node ''title'')
                                             (jsonProp node ''title'')\<rparr> # results,
                                  st3)))"
    using jsonTypeToTsType_ref [OF assms(1,2), of 0 repo "\<lparr>schema = Parsed node, path = path context\<rparr>" st']
    by (auto simp: resolveSchema_ref [OF assms(1,2)] split: option.splits sum.splits prod.splits)
  have four: "\<not> startsWith ref ''#'' \<and> resolveRef repo ref context st = Inr (None, st')
            \<longrightarrow> resolveRef repo ref \<lparr>schema = Parsed node, path = path context\<rparr> st'
                  = Inr (None, st')"
    using resolveRef_again [of ref repo "context" st None st'
            "\<lparr>schema = Parsed node, path = path context\<rparr>"]
    by simp
  show ?thesis using one two three four by blast
qed

theorem unresolved_ref_degrades_witness:
  "jsonTypeToTsType Map.empty (Parsed danglingRef) danglingRoot 0 emptyStore
     = Inr (''unknown'', emptyStore)
   \<and> extractComponents Map.empty danglingRoot emptyStore
       = Some (Inr ([\<lparr>name = ''minecraft:health'', type = ''unknown'', description = None, title = None\<rparr>,
                     \<lparr>name = ''minecraft:scale'', type = ''number'', description = None, title = None\<rparr>],
                    emptyStore))
   \<and> resolveRef sharedRepo ''common.json#/definitions/Missing''
         \<lparr>schema = Parsed (JObj [(''$ref'', JStr ''common.json#/definitions/Missing'')]),
            path = ''source/a/entity.json''\<rparr> sharedStore
       = Inr (None, sharedStore)"
proof -
  have r: "getProp (Parsed danglingRef) ''$ref'' = Some (JStr ''#/definitions/Missing'')"
    by (simp add: danglingRef_def)
  have n: "''#/definitions/Missing'' \<noteq> []" "(0::nat) \<le> 20" by simp_all
  have l1: "resolveRef Map.empty ''#/definitions/Missing'' danglingRoot emptyStore
             = Inr (None, emptyStore)"
    by (simp add: pointer_eval inOperator_def objectFunction_def objectPrototypeNames_def
          danglingRoot_def)
  have l2: "resolveRef Map.empty ''#/definitions/Missing''
              \<lparr>schema = Parsed danglingRef, path = path danglingRoot\<rparr> emptyStore
             = Inr (None, emptyStore)"
    by (simp add: pointer_eval inOperator_def objectFunction_def objectPrototypeNames_def
          danglingRef_def)
  note t = unresolved_ref_degrades [OF r n, of Map.empty danglingRoot emptyStore emptyStore _
             "''minecraft:health''" "[(''minecraft:scale'', numberNode)]" emptyStore]
  have rest: "extractLoop Map.empty danglingRoot [(''minecraft:scale'', numberNode)] emptyStore
     = Some (Inr ([\<lparr>name = ''minecraft:scale'', type = ''number'', description = None, title = None\<rparr>], emptyStore))"
    by (simp add: resolveSchema_plain numberNode_def jsonTypeToTsType.simps primitiveType_def)
  have "jsonTypeToTsType Map.empty (Parsed danglingRef) danglingRoot 0 emptyStore
          = Inr (''unknown'', emptyStore)"
    using t l1 by simp
  moreover have "extractComponents Map.empty danglingRoot emptyStore
       = Some (Inr ([\<lparr>name = ''minecraft:health'', type = ''unknown'', description = None, title = None\<rparr>,
                     \<lparr>name = ''minecraft:scale'', type = ''number'', description = None, title = None\<rparr>],
                    emptyStore))"
    using t l1 l2 rest
    by (simp add: extractComponents_def danglingRoot_def danglingRef_def)
  moreover have "resolveRef sharedRepo ''common.json#/definitions/Missing''
         \<lparr>schema = Parsed (JObj [(''$ref'', JStr ''common.json#/definitions/Missing'')]),
            path = ''source/a/entity.json''\<rparr> sharedStore
       = Inr (None, sharedStore)"
  proof -
    have g: "getProp (Parsed (JObj [(''$ref'', JStr ''common.json#/definitions/Missing'')])) ''$ref''
               = Some (JStr ''common.json#/definitions/Missing'')"
      by simp
    have c: "resolveRef sharedRepo ''common.json#/definitions/Missing''
               \<lparr>schema = Parsed (JObj []), path = ''source/a/entity.json''\<rparr> emptyStore
             = Inr (None, sharedStore)"
      by (simp add: path_eval pointer_eval inOperator_def objectFunction_def
            objectPrototypeNames_def sharedRepo_def sharedStore_def commonDoc_def)
    have s: "\<not> startsWith ''common.json#/definitions/Missing'' ''#''"
      by (simp add: startsWith_def)
    show ?thesis
      using unresolved_ref_degrades [OF g _ n(2), of sharedRepo
              "\<lparr>schema = Parsed (JObj []), path = ''source/a/entity.json''\<rparr>" emptyStore sharedStore]
        c s
      by simp
  qed
  ultimately show ?thesis by simp
qed

section \<open>Termination and the recursion guard\<close>

text \<open>Every call is in the domain of the recursion: the measure falls with the depth.\<close>

lemma jsonTypeToTsType_renderObject_total: "All jsonTypeToTsType_renderObject_dom"
  by (relation "measure (\<lambda>x. case x of
         Inl (repo, node, context, depth, st) \<Rightarrow> 2 * (22 - depth)
       | Inr (repo, node, context, depth, st) \<Rightarrow> 2 * (21 - depth) + 1)") auto

lemma cycle_warm:
  "resolveRef cycleRepo ''b.json'' cycleCtxA cycleStore = Inr (Some cycleCtxB, cycleStore)"
  "resolveRef cycleRepo ''a.json'' cycleCtxB cycleStore = Inr (Some cycleCtxA, cycleStore)"
  by (simp_all add: path_eval cycleRepo_def cycleCtxA_def cycleCtxB_def cycleStore_def)

lemma cycle_unknown:
  "jsonTypeToTsType cycleRepo (Parsed cycleA) cycleCtxA depth cycleStore = Inr (''unknown'', cycleStore)
   \<and> jsonTypeToTsType cycleRepo (Parsed cycleB) cycleCtxB depth cycleStore = Inr (''unknown'', cycleStore)"
proof (induction "21 - depth" arbitrary: depth)
  case 0
  then have "20 < depth" by simp
  then show ?case by (simp add: jsonTypeToTsType.simps)
next
  case (Suc n)
  then have d: "depth \<le> 20" and n: "n = 21 - (depth + 1)" by simp_all
  have a: "getProp (Parsed cycleA) ''$ref'' = Some (JStr ''b.json'')" by (simp add: cycleA_def)
  have b: "getProp (Parsed cycleB) ''$ref'' = Some (JStr ''a.json'')" by (simp add: cycleB_def)
  have s: "schema cycleCtxA = Parsed cycleA" "schema cycleCtxB = Parsed cycleB"
    by (simp_all add: cycleCtxA_def cycleCtxB_def)
  show ?case
    using Suc.hyps(1) [OF n] d
    by (simp add: jsonTypeToTsType_ref [OF a] jsonTypeToTsType_ref [OF b] cycle_warm s)
qed

lemma cycle_cold:
  "jsonTypeToTsType cycleRepo (Parsed cycleA) cycleCtxA 0 emptyStore = Inr (''unknown'', cycleStore)"
proof -
  have a: "getProp (Parsed cycleA) ''$ref'' = Some (JStr ''b.json'')" by (simp add: cycleA_def)
  have b: "getProp (Parsed cycleB) ''$ref'' = Some (JStr ''a.json'')" by (simp add: cycleB_def)
  have s: "schema cycleCtxA = Parsed cycleA" "schema cycleCtxB = Parsed cycleB"
    by (simp_all add: cycleCtxA_def cycleCtxB_def)
  show ?thesis
    using cycle_unknown [of "0 + 1 + 1"]
    by (simp add: jsonTypeToTsType_ref [OF a] jsonTypeToTsType_ref [OF b] cycle_step1 cycle_step2 s
          cycleStore_def)
qed

lemma sameDocCycle_unknown:
  "jsonTypeToTsType repo (Parsed (JObj [(''$ref'', JStr ''#/definitions/A'')]))
      \<lparr>schema = Parsed sameDocCycle, path = p\<rparr> 0 st = Inr (''unknown'', st)"
  by (simp add: jsonTypeToTsType.simps pointer_eval sameDocCycle_def)


text \<open>
  Claim C2. \<open>jsonTypeToTsType\<close> terminates on every node, context, depth and store: every
  call is in the domain of the recursion. Above depth 20 the result is \<^verbatim>\<open>unknown\<close>, whatever
  the node. The two documents \<^verbatim>\<open>a.json\<close> and \<^verbatim>\<open>b.json\<close> that refer to each other synthesize to
  \<^verbatim>\<open>unknown\<close>, and so does a reference into the document whose definitions \<open>A\<close> and \<open>B\<close> refer
  to each other by pointer.
\<close>

theorem jsonTypeToTsType_terminates:
  "jsonTypeToTsType_renderObject_dom (Inl (repo, node, context, depth, st))
   \<and> (20 < depth \<longrightarrow> jsonTypeToTsType repo node context depth st = Inr (''unknown'', st))
   \<and> jsonTypeToTsType cycleRepo (Parsed cycleA) cycleCtxA 0 emptyStore = Inr (''unknown'', cycleStore)
   \<and> jsonTypeToTsType repo (Parsed (JObj [(''$ref'', JStr ''#/definitions/A'')]))
        \<lparr>schema = Parsed sameDocCycle, path = p\<rparr> 0 st = Inr (''unknown'', st)"
proof -
  have "jsonTypeToTsType_renderObject_dom (Inl (repo, node, context, depth, st))"
    using jsonTypeToTsType_renderObject_total by blast
  moreover have "20 < depth \<longrightarrow> jsonTypeToTsType repo node context depth st = Inr (''unknown'', st)"
    by (simp add: jsonTypeToTsType.simps)
  ultimately show ?thesis using cycle_cold sameDocCycle_unknown by blast
qed

theorem jsonTypeToTsType_terminates_witness:
  "(20::nat) < 21
   \<and> jsonTypeToTsType Map.empty (Parsed statsNode) \<lparr>schema = Parsed statsNode, path = ''a.json''\<rparr> 21 emptyStore
       = Inr (''unknown'', emptyStore)"
  using jsonTypeToTsType_terminates
          [of Map.empty "Parsed statsNode" "\<lparr>schema = Parsed statsNode, path = ''a.json''\<rparr>" 21
              emptyStore]
  by simp

section \<open>A reference and its target\<close>

lemma refChain_synth:
  assumes "refChain repo node context st keys node' context' st'"
  shows "depth + length keys \<le> 21
         \<Longrightarrow> jsonTypeToTsType repo node context depth st
             = jsonTypeToTsType repo node' context' (depth + length keys) st'"
  using assms
proof (induction arbitrary: depth rule: refChain.induct)
  case (chain_end node ctx st)
  show ?case by simp
next
  case (chain_hop node ref ctx st target st1 keys node' ctx' st')
  have d: "depth \<le> 20" using chain_hop.prems by simp
  have "jsonTypeToTsType repo node ctx depth st
          = jsonTypeToTsType repo (schema target) target (depth + 1) st1"
    using chain_hop.hyps(1,2,3) d by (simp add: jsonTypeToTsType_ref)
  also have "\<dots> = jsonTypeToTsType repo node' ctx' (depth + 1 + length keys) st'"
    using chain_hop.IH [of "depth + 1"] chain_hop.prems by simp
  finally show ?case by (simp add: add.assoc)
qed

lemma refChain_resolveSchema:
  assumes "refChain repo node context st keys node' context' st'"
  shows "distinct keys \<Longrightarrow> set keys \<inter> seen = {} \<Longrightarrow> node' \<noteq> Parsed JNull
         \<Longrightarrow> \<not> truthyU (getProp node' ''$ref'')
         \<Longrightarrow> resolveSchema repo node context seen st
             = Some (Inr (\<lparr>schema = node', path = path context'\<rparr>, st'))"
  using assms
proof (induction arbitrary: seen rule: refChain.induct)
  case (chain_end node ctx st)
  then show ?case by (simp add: resolveSchema_plain)
next
  case (chain_hop node ref ctx st target st1 keys node' ctx' st')
  have k: "path ctx @ ''::'' @ ref \<notin> seen" using chain_hop.prems(2) by auto
  have "resolveSchema repo node ctx seen st
          = resolveSchema repo (schema target) target (insert (path ctx @ ''::'' @ ref) seen) st1"
    using chain_hop.hyps(1,2,3) k by (simp add: resolveSchema_ref)
  also have "\<dots> = Some (Inr (\<lparr>schema = node', path = path ctx'\<rparr>, st'))"
    using chain_hop.IH [of "insert (path ctx @ ''::'' @ ref) seen"] chain_hop.prems
    by auto
  finally show ?case .
qed

lemma stats_resolve:
  "resolveRef repo ''#/definitions/Stats'' \<lparr>schema = Parsed objectDoc, path = p\<rparr> st
     = Inr (Some \<lparr>schema = Parsed statsNode, path = p\<rparr>, st)"
  by (simp add: pointer_eval objectDoc_def statsNode_def)

lemmas render_eval = jsonTypeToTsType.simps renderObject.simps generateJSDoc_def primitiveType_def
  repeat_def safeKey_def isIdentifier_def identStart_def identChar_def newline_def Let_def

lemma stats_direct:
  "jsonTypeToTsType repo (Parsed statsNode) \<lparr>schema = Parsed statsNode, path = p\<rparr> 0 st
     = Inr (''{'' @ newline @ ''  hp?: number;'' @ newline @ ''}'', st)"
  by (simp add: statsNode_def render_eval)

lemma stats_deeper:
  "jsonTypeToTsType repo (Parsed statsNode) \<lparr>schema = Parsed statsNode, path = p\<rparr> 1 st
     = Inr (''{'' @ newline @ ''    hp?: number;'' @ newline @ ''  }'', st)"
  by (simp add: statsNode_def render_eval)


lemma splitOn_absent: "c \<notin> set s \<Longrightarrow> splitOn c s = [s]"
  by (induction s) auto

lemma replaceAll_absent: "pat \<noteq> [] \<Longrightarrow> hd pat \<notin> set s \<Longrightarrow> replaceAll pat rep s = s"
  by (induction s) (auto simp: startsWith_def dest!: arg_cong [where f = hd] simp: hd_take)

lemma unescapePart_hopKey: "unescapePart (hopKey k) = hopKey k"
proof -
  have "replaceAll pat rep (hopKey k) = hopKey k" if "pat \<noteq> []" "hd pat \<noteq> CHR ''x''"
    for pat rep
    using that by (intro replaceAll_absent) (simp_all add: hopKey_def)
  then show ?thesis by (simp add: unescapePart_def)
qed

lemma pointerParts_hopKey: "pointerParts (''#/'' @ hopKey k) = [hopKey k]"
proof -
  have "CHR ''/'' \<notin> set (hopKey k)" by (simp add: hopKey_def)
  then show ?thesis by (simp add: pointerParts_def splitOn_absent unescapePart_hopKey)
qed

lemma nest_truthy: "truthy (nest k n)"
  by (cases n) simp_all

lemma nest_resolve:
  "resolveRef repo (''#/'' @ hopKey k) \<lparr>schema = Parsed (nest k (Suc n)), path = p\<rparr> st
     = Inr (Some \<lparr>schema = Parsed (nest (Suc k) n), path = p\<rparr>, st)"
proof -
  have ne: "''$ref'' \<noteq> hopKey k" by (simp add: hopKey_def)
  have "getByPointer (Parsed (nest k (Suc n))) (''#/'' @ hopKey k)
          = Inr (Some (Parsed (nest (Suc k) n)))"
    unfolding getByPointer_def pointerParts_hopKey using ne
    by (simp add: startsWith_def inOperator_def)
  then show ?thesis
    by (simp add: resolveRef_def startsWith_def targetAt_def nest_truthy)
qed

lemma nest_chain:
  "refChain repo (Parsed (nest k n)) \<lparr>schema = Parsed (nest k n), path = p\<rparr> st (hopKeys p k n)
     (Parsed (nest (k + n) 0)) \<lparr>schema = Parsed (nest (k + n) 0), path = p\<rparr> st"
proof (induction n arbitrary: k)
  case 0
  show ?case by (simp add: hopKeys_def chain_end)
next
  case (Suc n)
  have keys: "hopKeys p k (Suc n) = (p @ ''::'' @ ''#/'' @ hopKey k) # hopKeys p (Suc k) n"
    by (simp add: hopKeys_def upt_conv_Cons del: upt_Suc)
  have "refChain repo (Parsed (nest k (Suc n))) \<lparr>schema = Parsed (nest k (Suc n)), path = p\<rparr> st
          ((path \<lparr>schema = Parsed (nest k (Suc n)), path = p\<rparr> @ ''::'' @ (''#/'' @ hopKey k)) # hopKeys p (Suc k) n)
          (Parsed (nest (Suc k + n) 0)) \<lparr>schema = Parsed (nest (Suc k + n) 0), path = p\<rparr> st"
  proof (rule chain_hop)
    show "getProp (Parsed (nest k (Suc n))) ''$ref'' = Some (JStr (''#/'' @ hopKey k))" by simp
    show "''#/'' @ hopKey k \<noteq> []" by simp
    show "resolveRef repo (''#/'' @ hopKey k) \<lparr>schema = Parsed (nest k (Suc n)), path = p\<rparr> st
            = Inr (Some \<lparr>schema = Parsed (nest (Suc k) n), path = p\<rparr>, st)"
      by (rule nest_resolve)
    show "refChain repo (schema \<lparr>schema = Parsed (nest (Suc k) n), path = p\<rparr>)
            \<lparr>schema = Parsed (nest (Suc k) n), path = p\<rparr> st (hopKeys p (Suc k) n)
            (Parsed (nest (Suc k + n) 0)) \<lparr>schema = Parsed (nest (Suc k + n) 0), path = p\<rparr> st"
      using Suc.IH [of "Suc k"] by simp
  qed
  then show ?case by (simp add: keys)
qed

lemma hopKeys_distinct: "distinct (hopKeys p k n)"
proof -
  have "inj (\<lambda>i. p @ ''::'' @ ''#/'' @ hopKey i)"
    by (rule injI) (simp add: hopKey_def)
  then show ?thesis
    by (simp add: hopKeys_def distinct_map inj_on_def)
qed

lemma hopKeys_length: "length (hopKeys p k n) = n"
  by (simp add: hopKeys_def)


text \<open>
  Claim C3 as stated fails when both nodes are synthesized at the same depth. The reference to
  an object type renders the object one level deeper than the object itself, so the two texts
  differ in their indentation; and a chain of 21 references with different keys, which
  \<open>resolveSchema\<close> follows to a string type, synthesizes to \<^verbatim>\<open>unknown\<close>.
\<close>

theorem ref_same_depth_differs:
  "resolveRef Map.empty ''#/definitions/Stats'' \<lparr>schema = Parsed objectDoc, path = ''a.json''\<rparr> emptyStore
     = Inr (Some \<lparr>schema = Parsed statsNode, path = ''a.json''\<rparr>, emptyStore)
   \<and> jsonTypeToTsType Map.empty (Parsed statsRef) \<lparr>schema = Parsed objectDoc, path = ''a.json''\<rparr> 0 emptyStore
     = Inr (''{'' @ newline @ ''    hp?: number;'' @ newline @ ''  }'', emptyStore)
   \<and> jsonTypeToTsType Map.empty (Parsed statsNode) \<lparr>schema = Parsed statsNode, path = ''a.json''\<rparr> 0 emptyStore
     = Inr (''{'' @ newline @ ''  hp?: number;'' @ newline @ ''}'', emptyStore)
   \<and> resolveSchema Map.empty (Parsed (nest 0 21)) \<lparr>schema = Parsed (nest 0 21), path = ''a.json''\<rparr> {} emptyStore
     = Some (Inr (\<lparr>schema = Parsed (nest 21 0), path = ''a.json''\<rparr>, emptyStore))
   \<and> jsonTypeToTsType Map.empty (Parsed (nest 0 21)) \<lparr>schema = Parsed (nest 0 21), path = ''a.json''\<rparr> 0 emptyStore
     = Inr (''unknown'', emptyStore)
   \<and> jsonTypeToTsType Map.empty (Parsed (nest 21 0)) \<lparr>schema = Parsed (nest 21 0), path = ''a.json''\<rparr> 0 emptyStore
     = Inr (''string'', emptyStore)"
proof -
  have r: "getProp (Parsed statsRef) ''$ref'' = Some (JStr ''#/definitions/Stats'')"
    by (simp add: statsRef_def)
  have a: "jsonTypeToTsType Map.empty (Parsed statsRef) \<lparr>schema = Parsed objectDoc, path = ''a.json''\<rparr> 0 emptyStore
     = Inr (''{'' @ newline @ ''    hp?: number;'' @ newline @ ''  }'', emptyStore)"
    using stats_deeper [of Map.empty "''a.json''" emptyStore]
    by (simp add: jsonTypeToTsType_ref [OF r] stats_resolve)
  have c: "refChain Map.empty (Parsed (nest 0 21)) \<lparr>schema = Parsed (nest 0 21), path = ''a.json''\<rparr> emptyStore
             (hopKeys ''a.json'' 0 21) (Parsed (nest 21 0)) \<lparr>schema = Parsed (nest 21 0), path = ''a.json''\<rparr> emptyStore"
    using nest_chain [of Map.empty 0 21 "''a.json''" emptyStore] by simp
  have b: "resolveSchema Map.empty (Parsed (nest 0 21)) \<lparr>schema = Parsed (nest 0 21), path = ''a.json''\<rparr> {} emptyStore
     = Some (Inr (\<lparr>schema = Parsed (nest 21 0), path = ''a.json''\<rparr>, emptyStore))"
    using refChain_resolveSchema [OF c, of "{}"] by (simp add: hopKeys_distinct)
  have "jsonTypeToTsType Map.empty (Parsed (nest 0 21)) \<lparr>schema = Parsed (nest 0 21), path = ''a.json''\<rparr> 0 emptyStore
     = jsonTypeToTsType Map.empty (Parsed (nest 21 0)) \<lparr>schema = Parsed (nest 21 0), path = ''a.json''\<rparr> 21 emptyStore"
    using refChain_synth [OF c, of 0] by (simp add: hopKeys_length)
  then have d: "jsonTypeToTsType Map.empty (Parsed (nest 0 21)) \<lparr>schema = Parsed (nest 0 21), path = ''a.json''\<rparr> 0 emptyStore
     = Inr (''unknown'', emptyStore)"
    by (simp add: jsonTypeToTsType.simps)
  have e: "jsonTypeToTsType Map.empty (Parsed (nest 21 0)) \<lparr>schema = Parsed (nest 21 0), path = ''a.json''\<rparr> 0 emptyStore
     = Inr (''string'', emptyStore)"
    by (simp add: jsonTypeToTsType.simps primitiveType_def)
  show ?thesis using a b d e stats_resolve stats_direct by simp
qed

text \<open>
  Claim C3, amended. Along a chain of references that \<open>resolveRef\<close> resolves, the node
  synthesizes at depth \<open>d\<close> to exactly what the node at the end of the chain synthesizes to, in
  its own context, at depth \<open>d\<close> plus the number of references followed, as long as that sum
  is at most 21. When the keys of the chain are distinct and new and the chain ends in a node
  without a reference, the end of the chain is what \<open>resolveSchema\<close> returns.
\<close>

theorem ref_synthesizes_as_target_deeper:
  assumes "refChain repo node context st keys node' context' st'"
  shows "(depth + length keys \<le> 21
            \<longrightarrow> jsonTypeToTsType repo node context depth st
                = jsonTypeToTsType repo node' context' (depth + length keys) st')
       \<and> (distinct keys \<and> set keys \<inter> seen = {} \<and> node' \<noteq> Parsed JNull
            \<and> \<not> truthyU (getProp node' ''$ref'')
            \<longrightarrow> resolveSchema repo node context seen st
                = Some (Inr (\<lparr>schema = node', path = path context'\<rparr>, st')))"
  using refChain_synth [OF assms] refChain_resolveSchema [OF assms] by blast

theorem ref_synthesizes_as_target_deeper_witness:
  "refChain Map.empty (Parsed statsRef) \<lparr>schema = Parsed objectDoc, path = ''a.json''\<rparr> emptyStore
     [''a.json::#/definitions/Stats''] (Parsed statsNode) \<lparr>schema = Parsed statsNode, path = ''a.json''\<rparr> emptyStore
   \<and> jsonTypeToTsType Map.empty (Parsed statsRef) \<lparr>schema = Parsed objectDoc, path = ''a.json''\<rparr> 0 emptyStore
       = jsonTypeToTsType Map.empty (Parsed statsNode) \<lparr>schema = Parsed statsNode, path = ''a.json''\<rparr> 1 emptyStore
   \<and> resolveSchema Map.empty (Parsed statsRef) \<lparr>schema = Parsed objectDoc, path = ''a.json''\<rparr> {} emptyStore
       = Some (Inr (\<lparr>schema = Parsed statsNode, path = ''a.json''\<rparr>, emptyStore))"
proof -
  have c: "refChain Map.empty (Parsed statsRef) \<lparr>schema = Parsed objectDoc, path = ''a.json''\<rparr> emptyStore
     [''a.json::#/definitions/Stats''] (Parsed statsNode) \<lparr>schema = Parsed statsNode, path = ''a.json''\<rparr> emptyStore"
    using chain_hop [of "Parsed statsRef" "''#/definitions/Stats''" Map.empty
            "\<lparr>schema = Parsed objectDoc, path = ''a.json''\<rparr>" emptyStore
            "\<lparr>schema = Parsed statsNode, path = ''a.json''\<rparr>" emptyStore "[]" "Parsed statsNode"
            "\<lparr>schema = Parsed statsNode, path = ''a.json''\<rparr>" emptyStore]
    by (simp add: statsRef_def stats_resolve chain_end)
  have n: "Parsed statsNode \<noteq> Parsed JNull" "\<not> truthyU (getProp (Parsed statsNode) ''$ref'')"
    by (simp_all add: statsNode_def)
  show ?thesis
    using c n ref_synthesizes_as_target_deeper [OF c, of 0 "{}"] by simp
qed

section \<open>Every synthesized text is non-empty\<close>

lemma showNat_nonempty: "showNat n \<noteq> []"
  by (subst showNat.simps) simp

lemma stringify_nonempty: "stringify v \<noteq> []"
  by (cases v) (simp_all add: showInt_def showNat_nonempty quoteJSON_def)

lemma literalType_nonempty: "literalType v \<noteq> []"
  by (cases v) (simp_all add: stringify_nonempty del: stringify.simps)

lemma primitiveType_nonempty: "primitiveType t \<noteq> []"
  by (simp add: primitiveType_def)

lemma join_two_nonempty: "sep \<noteq> [] \<Longrightarrow> join sep (x # y # ys) \<noteq> []"
  by simp

lemma join_head_nonempty: "x \<noteq> [] \<Longrightarrow> join sep (x # xs) \<noteq> []"
  by (cases xs) simp_all

lemma wrapUnion_nonempty: "wrapUnion types \<noteq> []"
proof -
  define unique where "unique = setOrder (filter (\<lambda>t. t \<noteq> []) types)"
  have ne: "\<forall>a \<in> set unique. a \<noteq> []" by (simp add: unique_def set_setOrder)
  show ?thesis
  proof (cases unique)
    case Nil
    then show ?thesis by (simp add: wrapUnion_def unique_def [symmetric])
  next
    case (Cons a rest)
    show ?thesis
    proof (cases rest)
      case Nil
      then show ?thesis using Cons ne by (simp add: wrapUnion_def unique_def [symmetric])
    next
      case (Cons b more)
      then show ?thesis using \<open>unique = a # rest\<close>
        by (simp add: wrapUnion_def unique_def [symmetric])
    qed
  qed
qed

lemma mapM_results:
  "mapM f xs st = Inr (ys, st') \<Longrightarrow> y \<in> set ys \<Longrightarrow> \<exists>x \<in> set xs. \<exists>s s'. f x s = Inr (y, s')"
proof (induction xs arbitrary: st ys)
  case Nil
  then show ?case by simp
next
  case (Cons x xs)
  from Cons.prems(1) obtain y0 s0 ys0 where
    h: "f x st = Inr (y0, s0)" "mapM f xs s0 = Inr (ys0, st')" "ys = y0 # ys0"
    by (auto split: sum.splits prod.splits)
  show ?case
  proof (cases "y = y0")
    case True
    then show ?thesis using h(1) by auto
  next
    case False
    then have "y \<in> set ys0" using Cons.prems(2) h(3) by simp
    then show ?thesis using Cons.IH [OF h(2)] by auto
  qed
qed

lemma renderObject_nonempty: "renderObject repo node context depth st = Inr (t, st') \<Longrightarrow> t \<noteq> []"
  by (subst (asm) renderObject.simps)
     (auto simp: Let_def join_head_nonempty split: sum.splits prod.splits if_splits option.splits)

lemma jsonTypeToTsType_nonempty:
  "jsonTypeToTsType repo node ctx depth st = Inr (t, st') \<Longrightarrow> t \<noteq> []"
proof (induction "21 - depth" arbitrary: node ctx depth st t st')
  case 0
  then have "20 < depth" by simp
  then show ?case using "0.prems" by (simp add: jsonTypeToTsType.simps) auto
next
  case (Suc n)
  have d: "\<not> 20 < depth" and n: "n = 21 - (depth + 1)" using Suc.hyps(2) by simp_all
  have IH: "jsonTypeToTsType repo v c (Suc depth) s = Inr (y, s') \<Longrightarrow> y \<noteq> []" for v c s y s'
    using Suc.hyps(1) [OF n] by simp
  have joined: "join sep ys \<noteq> []"
    if "mapM (\<lambda>x. jsonTypeToTsType repo (Parsed x) ctx (Suc depth)) xs st = Inr (ys, s')"
       "ys \<noteq> []"
    for xs ys s' sep
  proof -
    have "\<forall>y \<in> set ys. y \<noteq> []" using mapM_results [OF that(1)] IH by blast
    then show ?thesis using that(2) by (cases ys) (simp_all add: join_head_nonempty)
  qed
  show ?case
    using Suc.prems d
    apply (subst (asm) jsonTypeToTsType.simps)
    apply (auto split: if_splits option.splits sum.splits prod.splits
                simp: wrapUnion_nonempty literalType_nonempty primitiveType_nonempty
                dest: IH joined renderObject_nonempty)
    done
qed


text \<open>
  Claim C10. Whenever \<open>jsonTypeToTsType\<close> or \<open>renderObject\<close> returns, the text is not empty.
  So the filter of the union branch removes nothing from the synthesized branch types, and
  what \<open>wrapUnion\<close> receives, the branch types, the types of a type list and the literal
  types of an enum, are non-empty texts.
\<close>

theorem synthesized_text_nonempty:
  "(jsonTypeToTsType repo node context depth st = Inr (t, st') \<longrightarrow> t \<noteq> [])
   \<and> (renderObject repo node context depth st = Inr (t, st') \<longrightarrow> t \<noteq> [])
   \<and> (mapM (\<lambda>x. jsonTypeToTsType repo (g x) context depth) xs st = Inr (types, st')
        \<longrightarrow> filter (\<lambda>t. t \<noteq> []) types = types)
   \<and> filter (\<lambda>t. t \<noteq> []) (map literalType vs) = map literalType vs"
proof -
  have "filter (\<lambda>t. t \<noteq> []) types = types"
    if "mapM (\<lambda>x. jsonTypeToTsType repo (g x) context depth) xs st = Inr (types, st')"
  proof -
    have "\<forall>y \<in> set types. y \<noteq> []"
      using mapM_results [OF that] jsonTypeToTsType_nonempty by blast
    then show ?thesis by (simp add: filter_id_conv)
  qed
  moreover have "filter (\<lambda>t. t \<noteq> []) (map literalType vs) = map literalType vs"
    by (simp add: filter_id_conv literalType_nonempty)
  ultimately show ?thesis
    using jsonTypeToTsType_nonempty renderObject_nonempty by blast
qed

theorem synthesized_text_nonempty_witness:
  "jsonTypeToTsType Map.empty (Parsed unionExample) \<lparr>schema = Parsed unionExample, path = ''a.json''\<rparr> 0 emptyStore
     = Inr ([CHR 0x27, CHR ''a'', CHR 0x27] @ '' | number'', emptyStore)
   \<and> [CHR 0x27, CHR ''a'', CHR 0x27] @ '' | number'' \<noteq> []
   \<and> mapM (\<lambda>x. jsonTypeToTsType Map.empty (Parsed x)
                 \<lparr>schema = Parsed unionExample, path = ''a.json''\<rparr> 1)
        [JObj [(''const'', JStr ''a'')], JObj [(''type'', JStr ''number'')]] emptyStore
     = Inr ([[CHR 0x27, CHR ''a'', CHR 0x27], ''number''], emptyStore)
   \<and> filter (\<lambda>t. t \<noteq> []) [[CHR 0x27, CHR ''a'', CHR 0x27], ''number'']
     = [[CHR 0x27, CHR ''a'', CHR 0x27], ''number'']"
proof -
  have a: "jsonTypeToTsType Map.empty (Parsed unionExample) \<lparr>schema = Parsed unionExample, path = ''a.json''\<rparr> 0 emptyStore
     = Inr ([CHR 0x27, CHR ''a'', CHR 0x27] @ '' | number'', emptyStore)"
    by (simp add: unionExample_def jsonTypeToTsType.simps wrapUnion_def setOrder_def primitiveType_def)
  have b: "mapM (\<lambda>x. jsonTypeToTsType Map.empty (Parsed x)
                 \<lparr>schema = Parsed unionExample, path = ''a.json''\<rparr> 1)
        [JObj [(''const'', JStr ''a'')], JObj [(''type'', JStr ''number'')]] emptyStore
     = Inr ([[CHR 0x27, CHR ''a'', CHR 0x27], ''number''], emptyStore)"
    by (simp add: jsonTypeToTsType.simps primitiveType_def)
  show ?thesis
    using a b synthesized_text_nonempty
            [of Map.empty "Parsed unionExample"
               "\<lparr>schema = Parsed unionExample, path = ''a.json''\<rparr>" 0 emptyStore
               "[CHR 0x27, CHR ''a'', CHR 0x27] @ '' | number''" emptyStore]
    by simp
qed

section \<open>Fields of an object type\<close>

lemma mapM_fields:
  assumes "mapM (\<lambda>kv s. case generateJSDoc (snd kv) depth of
                 Inl e \<Rightarrow> Inl e
               | Inr doc \<Rightarrow>
                   (case jsonTypeToTsType repo (Parsed (snd kv)) ctx d s of
                      Inl e \<Rightarrow> Inl e
                    | Inr (ty, s') \<Rightarrow> Inr (F kv doc ty, s')))
             kvs st = Inr (ls, st')"
  shows "\<exists>types. mapM (\<lambda>kv. jsonTypeToTsType repo (Parsed (snd kv)) ctx d) kvs st = Inr (types, st')
           \<and> length types = length kvs
           \<and> ls = map2 (\<lambda>kv ty. F kv (docText (snd kv) depth) ty) kvs types"
  using assms
proof (induction kvs arbitrary: st ls)
  case Nil
  then show ?case by simp
next
  case (Cons kv kvs)
  from Cons.prems obtain doc ty s1 ls1 where
    h: "generateJSDoc (snd kv) depth = Inr doc"
       "jsonTypeToTsType repo (Parsed (snd kv)) ctx d st = Inr (ty, s1)"
       "mapM (\<lambda>kv s. case generateJSDoc (snd kv) depth of
                 Inl e \<Rightarrow> Inl e
               | Inr doc \<Rightarrow>
                   (case jsonTypeToTsType repo (Parsed (snd kv)) ctx d s of
                      Inl e \<Rightarrow> Inl e
                    | Inr (ty, s') \<Rightarrow> Inr (F kv doc ty, s')))
             kvs s1 = Inr (ls1, st')"
       "ls = F kv doc ty # ls1"
    by (auto split: sum.splits prod.splits)
  from Cons.IH [OF h(3)] obtain types where
    t: "mapM (\<lambda>kv. jsonTypeToTsType repo (Parsed (snd kv)) ctx d) kvs s1 = Inr (types, st')"
       "length types = length kvs"
       "ls1 = map2 (\<lambda>kv ty. F kv (docText (snd kv) depth) ty) kvs types"
    by blast
  have "mapM (\<lambda>kv. jsonTypeToTsType repo (Parsed (snd kv)) ctx d) (kv # kvs) st = Inr (ty # types, st')"
    using h(2) t(1) by simp
  moreover have "ls = map2 (\<lambda>kv ty. F kv (docText (snd kv) depth) ty) (kv # kvs) (ty # types)"
    using h(1,4) t(3) by (simp add: docText_def)
  ultimately show ?case using t(2) by (intro exI [of _ "ty # types"]) simp
qed

text \<open>
  Claim C4. When \<open>renderObject\<close> returns, its text is the opening brace, then the lines of
  one field for each entry of the properties, in their enumeration order and with the type
  synthesized for the entry's value, then at most one line for the additional properties, then
  the closing brace. The line of a field carries no optional marker if and only if the key is
  among the elements of the schema's required names.
\<close>

theorem renderObject_fields:
  assumes "renderObject repo node context depth st = Inr (text, st')"
  shows "\<exists>required types st1 additional.
           setElements (orElse (getProp node ''required'') (JArr [])) = Inr required
         \<and> mapM (\<lambda>kv. jsonTypeToTsType repo (Parsed (snd kv)) context (depth + 1))
              (entries (orElse (getProp node ''properties'') (JObj []))) st = Inr (types, st1)
         \<and> length types = length (entries (orElse (getProp node ''properties'') (JObj [])))
         \<and> length additional \<le> 1
         \<and> text = join newline
             ([''{'']
              @ concat (map2 (fieldLines depth required)
                          (entries (orElse (getProp node ''properties'') (JObj []))) types)
              @ additional
              @ [repeat ''  '' (depth - 1) @ ''}''])"
proof -
  note a = assms [unfolded renderObject.simps Let_def]
  from a obtain required where
    r: "setElements (orElse (getProp node ''required'') (JArr [])) = Inr required"
    by (auto split: sum.splits)
  from a r obtain ls st1 where
    m: "mapM (\<lambda>kv s. case generateJSDoc (snd kv) depth of
                 Inl e \<Rightarrow> Inl e
               | Inr doc \<Rightarrow>
                   (case jsonTypeToTsType repo (Parsed (snd kv)) context (depth + 1) s of
                      Inl e \<Rightarrow> Inl e
                    | Inr (ty, s') \<Rightarrow>
                        Inr ((if doc \<noteq> [] then [doc] else [])
                             @ [repeat ''  '' depth @ safeKey (fst kv)
                                @ (if JStr (fst kv) \<in> set required then [] else ''?'')
                                @ '': '' @ ty @ '';''], s')))
             (entries (orElse (getProp node ''properties'') (JObj []))) st = Inr (ls, st1)"
    by (auto split: sum.splits prod.splits)
  have "\<exists>additional. length additional \<le> 1
          \<and> text = join newline ([''{''] @ concat ls @ additional
                                  @ [repeat ''  '' (depth - 1) @ ''}''])"
  proof (cases "getProp node ''additionalProperties'' = Some (JBool True)")
    case True
    with a r m show ?thesis
      by (intro exI [of _ "[repeat ''  '' depth @ ''[key: string]: unknown;'']"])
         (auto split: if_splits)
  next
    case False
    show ?thesis
    proof (cases "objectTyped (getProp node ''additionalProperties'')")
      case None
      with a r m False show ?thesis by (intro exI [of _ "[]"]) (auto split: if_splits)
    next
      case (Some ap)
      with a r m False obtain additional st2 where
        "text = join newline ([''{''] @ concat ls
                  @ [repeat ''  '' depth @ ''[key: string]: '' @ additional @ '';'']
                  @ [repeat ''  '' (depth - 1) @ ''}''])"
        by (auto split: sum.splits prod.splits if_splits)
      then show ?thesis
        by (intro exI [of _ "[repeat ''  '' depth @ ''[key: string]: '' @ additional @ '';'']"]) auto
    qed
  qed
  then obtain additional where
    h: "length additional \<le> 1"
       "text = join newline ([''{''] @ concat ls @ additional @ [repeat ''  '' (depth - 1) @ ''}''])"
    by blast
  from mapM_fields [OF m] obtain types where
    t: "mapM (\<lambda>kv. jsonTypeToTsType repo (Parsed (snd kv)) context (depth + 1))
          (entries (orElse (getProp node ''properties'') (JObj []))) st = Inr (types, st1)"
       "length types = length (entries (orElse (getProp node ''properties'') (JObj [])))"
       "ls = map2 (\<lambda>kv ty. (if docText (snd kv) depth \<noteq> [] then [docText (snd kv) depth] else [])
                             @ [repeat ''  '' depth @ safeKey (fst kv)
                                @ (if JStr (fst kv) \<in> set required then [] else ''?'')
                                @ '': '' @ ty @ '';''])
               (entries (orElse (getProp node ''properties'') (JObj []))) types"
    by blast
  have "ls = map2 (fieldLines depth required)
               (entries (orElse (getProp node ''properties'') (JObj []))) types"
    unfolding t(3) by (simp add: fieldLines_def [abs_def])
  then show ?thesis using r h t(1,2) by blast
qed


theorem renderObject_fields_witness:
  "renderObject Map.empty (Parsed statsObject) \<lparr>schema = Parsed statsObject, path = ''a.json''\<rparr> 1 emptyStore
     = Inr (''{'' @ newline @ ''  hp: number;'' @ newline
            @ [CHR '' '', CHR '' '', CHR 0x27] @ ''nick-name'' @ [CHR 0x27] @ ''?: string;''
            @ newline @ ''}'', emptyStore)
   \<and> (\<exists>required types st1 additional.
           setElements (orElse (getProp (Parsed statsObject) ''required'') (JArr [])) = Inr required
         \<and> mapM (\<lambda>kv. jsonTypeToTsType Map.empty (Parsed (snd kv))
                          \<lparr>schema = Parsed statsObject, path = ''a.json''\<rparr> (1 + 1))
              (entries (orElse (getProp (Parsed statsObject) ''properties'') (JObj []))) emptyStore
             = Inr (types, st1)
         \<and> length types = length (entries (orElse (getProp (Parsed statsObject) ''properties'') (JObj [])))
         \<and> length additional \<le> 1
         \<and> ''{'' @ newline @ ''  hp: number;'' @ newline
            @ [CHR '' '', CHR '' '', CHR 0x27] @ ''nick-name'' @ [CHR 0x27] @ ''?: string;''
            @ newline @ ''}''
           = join newline
             ([''{'']
              @ concat (map2 (fieldLines 1 required)
                          (entries (orElse (getProp (Parsed statsObject) ''properties'') (JObj []))) types)
              @ additional
              @ [repeat ''  '' (1 - 1) @ ''}'']))"
proof -
  have r: "renderObject Map.empty (Parsed statsObject) \<lparr>schema = Parsed statsObject, path = ''a.json''\<rparr> 1 emptyStore
     = Inr (''{'' @ newline @ ''  hp: number;'' @ newline
            @ [CHR '' '', CHR '' '', CHR 0x27] @ ''nick-name'' @ [CHR 0x27] @ ''?: string;''
            @ newline @ ''}'', emptyStore)"
    by (simp add: statsObject_def render_eval)
  show ?thesis using r renderObject_fields [OF r] by simp
qed

section \<open>Shared documents: one normalized path, one load\<close>

lemma mapM_store:
  assumes "\<And>x s y s'. x \<in> set xs \<Longrightarrow> f x s = Inr (y, s') \<Longrightarrow> cacheKept s s' \<and> (storeOK s \<longrightarrow> storeOK s')"
    and "mapM f xs st = Inr (ys, st')"
  shows "cacheKept st st' \<and> (storeOK st \<longrightarrow> storeOK st')"
  using assms
proof (induction xs arbitrary: st ys)
  case Nil
  then show ?case by (simp add: cacheKept_refl)
next
  case (Cons x xs)
  from Cons.prems(2) obtain y0 s0 ys0 where
    h: "f x st = Inr (y0, s0)" "mapM f xs s0 = Inr (ys0, st')"
    by (auto split: sum.splits prod.splits)
  have 1: "cacheKept st s0 \<and> (storeOK st \<longrightarrow> storeOK s0)"
    using Cons.prems(1) [OF _ h(1)] by simp
  have p: "f x' s = Inr (y, s') \<Longrightarrow> cacheKept s s' \<and> (storeOK s \<longrightarrow> storeOK s')"
    if "x' \<in> set xs" for x' s y s'
    using Cons.prems(1) [of x' s y s'] that by simp
  have 2: "cacheKept s0 st' \<and> (storeOK s0 \<longrightarrow> storeOK st')"
    using Cons.IH [OF p h(2)] by simp
  show ?case using 1 2 cacheKept_trans by blast
qed

lemma renderObject_store:
  assumes J: "\<And>v c s y s'. jsonTypeToTsType repo v c (depth + 1) s = Inr (y, s')
                \<Longrightarrow> cacheKept s s' \<and> (storeOK s \<longrightarrow> storeOK s')"
    and "renderObject repo node ctx depth st = Inr (t, st')"
  shows "cacheKept st st' \<and> (storeOK st \<longrightarrow> storeOK st')"
proof -
  note a = assms(2) [unfolded renderObject.simps Let_def]
  from a obtain required where
    r: "setElements (orElse (getProp node ''required'') (JArr [])) = Inr required"
    by (auto split: sum.splits)
  from a r obtain ls st1 where
    m: "mapM (\<lambda>kv s. case generateJSDoc (snd kv) depth of
                 Inl e \<Rightarrow> Inl e
               | Inr doc \<Rightarrow>
                   (case jsonTypeToTsType repo (Parsed (snd kv)) ctx (depth + 1) s of
                      Inl e \<Rightarrow> Inl e
                    | Inr (ty, s') \<Rightarrow>
                        Inr ((if doc \<noteq> [] then [doc] else [])
                             @ [repeat ''  '' depth @ safeKey (fst kv)
                                @ (if JStr (fst kv) \<in> set required then [] else ''?'')
                                @ '': '' @ ty @ '';''], s')))
             (entries (orElse (getProp node ''properties'') (JObj []))) st = Inr (ls, st1)"
    by (auto split: sum.splits prod.splits)
  from mapM_fields [OF m] obtain types where
    t: "mapM (\<lambda>kv. jsonTypeToTsType repo (Parsed (snd kv)) ctx (depth + 1))
          (entries (orElse (getProp node ''properties'') (JObj []))) st = Inr (types, st1)"
    by blast
  have 1: "cacheKept st st1 \<and> (storeOK st \<longrightarrow> storeOK st1)"
    using mapM_store [OF _ t] J by blast
  have 2: "cacheKept st1 st' \<and> (storeOK st1 \<longrightarrow> storeOK st')"
    using a r m J by (auto simp: cacheKept_refl split: sum.splits prod.splits if_splits option.splits)
  show ?thesis using 1 2 cacheKept_trans by blast
qed

lemma jsonTypeToTsType_store:
  "jsonTypeToTsType repo node ctx depth st = Inr (t, st')
   \<Longrightarrow> cacheKept st st' \<and> (storeOK st \<longrightarrow> storeOK st')"
proof (induction "21 - depth" arbitrary: node ctx depth st t st' rule: less_induct)
  case less
  show ?case
  proof (cases "20 < depth")
    case True
    then show ?thesis using less.prems by (simp add: jsonTypeToTsType.simps cacheKept_refl)
  next
    case False
    have IH1: "jsonTypeToTsType repo v c (Suc depth) s = Inr (y, s')
                \<Longrightarrow> cacheKept s s' \<and> (storeOK s \<longrightarrow> storeOK s')" for v c s y s'
      using less.hyps [of "Suc depth" v c s y s'] False by simp
    have IH2: "jsonTypeToTsType repo v c (Suc depth + 1) s = Inr (y, s')
                \<Longrightarrow> cacheKept s s' \<and> (storeOK s \<longrightarrow> storeOK s')" for v c s y s'
      using less.hyps [of "Suc depth + 1" v c s y s'] False by simp
    have R: "renderObject repo v c (Suc depth) s = Inr (y, s')
                \<Longrightarrow> cacheKept s s' \<and> (storeOK s \<longrightarrow> storeOK s')" for v c s y s'
      using renderObject_store [of repo "Suc depth" v c s y s'] IH2 by blast
    have M: "mapM (\<lambda>x. jsonTypeToTsType repo (g x) ctx (Suc depth)) xs st = Inr (ys, s')
                \<Longrightarrow> cacheKept st s' \<and> (storeOK st \<longrightarrow> storeOK s')" for g xs ys s'
      using mapM_store [of xs "\<lambda>x. jsonTypeToTsType repo (g x) ctx (Suc depth)" st ys s'] IH1
      by blast
    have Ref: "cacheKept st s' \<and> (storeOK st \<longrightarrow> storeOK s')"
      if "resolveRef repo r ctx st = Inr (Some tg, s1)"
         "jsonTypeToTsType repo (schema tg) tg (Suc depth) s1 = Inr (y, s')" for r tg s1 y s'
      using resolveRef_store [OF that(1)] IH1 [OF that(2)] cacheKept_trans by blast
    show ?thesis
      using less.prems False
      apply (subst (asm) jsonTypeToTsType.simps)
      apply (auto split: if_splits option.splits sum.splits prod.splits
                  simp: cacheKept_refl
                  dest: IH1 R M [where g = "\<lambda>x. x"] M resolveRef_store Ref)
      done
  qed
qed


text \<open>Splitting and joining.\<close>

lemma splitOn_nonempty: "splitOn c s \<noteq> []"
  by (induction s) (auto split: list.splits)

lemma splitOn_append: "splitOn c (xs @ c # ys) = splitOn c xs @ splitOn c ys"
proof (induction xs)
  case Nil
  show ?case by simp
next
  case (Cons x xs)
  then show ?case using splitOn_nonempty [of c xs]
    by (cases "splitOn c xs") (auto split: list.splits)
qed

lemma normalizeSegs_append:
  "normalizeSegs a res (xs @ ys) = normalizeSegs a (normalizeSegs a res xs) ys"
  by (induction xs arbitrary: res) simp_all

lemma join_Cons: "xs \<noteq> [] \<Longrightarrow> join sep (x # xs) = x @ sep @ join sep xs"
  by (cases xs) simp_all

lemma join_append:
  "xs \<noteq> [] \<Longrightarrow> ys \<noteq> [] \<Longrightarrow> join sep (xs @ ys) = join sep xs @ sep @ join sep ys"
proof (induction xs)
  case Nil
  then show ?case by simp
next
  case (Cons x xs)
  show ?case
  proof (cases "xs = []")
    case True
    then show ?thesis using Cons.prems(2) by (simp add: join_Cons)
  next
    case False
    then show ?thesis using Cons by (simp add: join_Cons)
  qed
qed

lemma splitOn_join:
  "segs \<noteq> [] \<Longrightarrow> \<forall>s \<in> set segs. c \<notin> set s \<Longrightarrow> splitOn c (join [c] segs) = segs"
proof (induction segs)
  case Nil
  then show ?case by simp
next
  case (Cons x xs)
  show ?case
  proof (cases "xs = []")
    case True
    then show ?thesis using Cons.prems(2) by (simp add: splitOn_absent)
  next
    case False
    have "splitOn c (join [c] (x # xs)) = splitOn c (x @ c # join [c] xs)"
      using False by (simp add: join_Cons)
    also have "\<dots> = splitOn c x @ splitOn c (join [c] xs)" by (rule splitOn_append)
    also have "\<dots> = [x] @ xs" using Cons False by (simp add: splitOn_absent)
    finally show ?thesis by simp
  qed
qed

lemma join_nonempty: "xs \<noteq> [] \<Longrightarrow> hd xs \<noteq> [] \<Longrightarrow> join sep xs \<noteq> []"
  by (cases xs) (auto simp: join_head_nonempty)

lemma hd_join: "xs \<noteq> [] \<Longrightarrow> hd xs \<noteq> [] \<Longrightarrow> hd (join sep xs) = hd (hd xs)"
proof (cases xs)
  case Nil
  assume "xs \<noteq> []"
  then show ?thesis using Nil by simp
next
  case (Cons x rest)
  assume "hd xs \<noteq> []"
  then show ?thesis using Cons by (cases rest) simp_all
qed

lemma join_ends: "xs \<noteq> [] \<Longrightarrow> \<exists>pre. join sep xs = pre @ last xs"
proof (induction xs)
  case Nil
  then show ?case by simp
next
  case (Cons x xs)
  show ?case
  proof (cases "xs = []")
    case True
    then show ?thesis by simp
  next
    case False
    then obtain pre where "join sep xs = pre @ last xs" using Cons.IH by blast
    then have "join sep (x # xs) = (x @ sep @ pre) @ last (x # xs)"
      using False by (simp add: join_Cons)
    then show ?thesis by blast
  qed
qed

lemma last_join: "xs \<noteq> [] \<Longrightarrow> last xs \<noteq> [] \<Longrightarrow> last (join sep xs) = last (last xs)"
proof -
  assume a: "xs \<noteq> []" "last xs \<noteq> []"
  obtain pre where "join sep xs = pre @ last xs" using join_ends [OF a(1)] by blast
  then show ?thesis using a(2) by simp
qed

text \<open>Directories, joins and normal forms.\<close>

lemma posix_dirname_nonempty: "posix_dirname p \<noteq> []"
proof -
  define r where
    "r = dropWhile (\<lambda>c. c \<noteq> CHR ''/'') (dropWhile (\<lambda>c. c = CHR ''/'') (rev (tl p)))"
  have "posix_dirname p =
          (if p = [] then ''.''
           else if r = [] then (if hd p = CHR ''/'' then ''/'' else ''.'')
           else if hd p = CHR ''/'' \<and> length r = 1 then ''//''
           else take (length r) p)"
    unfolding posix_dirname_def Let_def r_def ..
  then show ?thesis by auto
qed

lemma posix_join_two:
  "d \<noteq> [] \<Longrightarrow> r \<noteq> [] \<Longrightarrow> posix_join [d, r] = posix_normalize (d @ ''/'' @ r)"
  by (simp add: posix_join_def)

lemma posix_dirname_file:
  assumes "d \<noteq> []" "last d \<noteq> CHR ''/''" "f \<noteq> []" "CHR ''/'' \<notin> set f"
  shows "posix_dirname (d @ CHR ''/'' # f) = d"
proof -
  obtain c cs where d: "d = c # cs" using assms(1) by (cases d) auto
  have "last f \<in> set f" using assms(3) by simp
  then have l: "last f \<noteq> CHR ''/''" using assms(4) by auto
  have "rev (tl (d @ CHR ''/'' # f)) = rev f @ CHR ''/'' # rev cs" by (simp add: d)
  moreover have "dropWhile (\<lambda>c. c = CHR ''/'') (rev f @ CHR ''/'' # rev cs) = rev f @ CHR ''/'' # rev cs"
    using assms(3) l by (cases "rev f") (auto simp: hd_rev dest: arg_cong [where f = hd])
  moreover have "dropWhile (\<lambda>c. c \<noteq> CHR ''/'') (rev f @ CHR ''/'' # rev cs) = CHR ''/'' # rev cs"
    using assms(4) by (auto simp: dropWhile_append3)
  ultimately have r: "dropWhile (\<lambda>c. c \<noteq> CHR ''/'')
        (dropWhile (\<lambda>c. c = CHR ''/'') (rev (tl (d @ CHR ''/'' # f)))) = CHR ''/'' # rev cs"
    by simp
  have root: "\<not> (hd (d @ CHR ''/'' # f) = CHR ''/'' \<and> length (CHR ''/'' # rev cs) = 1)"
    using assms(2) d by auto
  show ?thesis
    unfolding posix_dirname_def Let_def r using root d by simp
qed

lemma posix_dirname_leaf:
  assumes n: "CHR ''/'' \<notin> set leaf"
  shows "posix_dirname leaf = ''.''"
proof -
  define r where
    "r = dropWhile (\<lambda>c. c \<noteq> CHR ''/'') (dropWhile (\<lambda>c. c = CHR ''/'') (rev (tl leaf)))"
  have "\<forall>x \<in> set (dropWhile (\<lambda>c. c = CHR ''/'') (rev (tl leaf))). x \<noteq> CHR ''/''"
  proof
    fix x
    assume "x \<in> set (dropWhile (\<lambda>c. c = CHR ''/'') (rev (tl leaf)))"
    then have "x \<in> set (rev (tl leaf))" by (rule set_dropWhileD)
    then have m: "x \<in> set leaf" by (cases leaf) auto
    show "x \<noteq> CHR ''/''"
    proof
      assume "x = CHR ''/''"
      then have "CHR ''/'' \<in> set leaf" using m by simp
      then show False using n by simp
    qed
  qed
  then have e: "r = []" unfolding r_def by (rule iffD2 [OF dropWhile_eq_Nil_conv])
  have h: "hd leaf \<noteq> CHR ''/''" if "leaf \<noteq> []"
  proof -
    have m: "hd leaf \<in> set leaf" using that by (rule hd_in_set)
    show ?thesis
    proof
      assume "hd leaf = CHR ''/''"
      then have "CHR ''/'' \<in> set leaf" using m by simp
      then show False using n by simp
    qed
  qed
  have "posix_dirname leaf =
          (if leaf = [] then ''.''
           else if r = [] then (if hd leaf = CHR ''/'' then ''/'' else ''.'')
           else if hd leaf = CHR ''/'' \<and> length r = 1 then ''//''
           else take (length r) leaf)"
    unfolding posix_dirname_def Let_def r_def ..
  then show ?thesis using e h by simp
qed

text \<open>Names and segments.\<close>

lemma properName_ends:
  assumes "properName s"
  shows "s \<noteq> []" "CHR ''/'' \<notin> set s" "hd s \<noteq> CHR ''/''" "last s \<noteq> CHR ''/''"
proof -
  show 1: "s \<noteq> []" and 2: "CHR ''/'' \<notin> set s" using assms by (simp_all add: properName_def)
  have "hd s \<in> set s" "last s \<in> set s" using 1 by simp_all
  then show "hd s \<noteq> CHR ''/''" "last s \<noteq> CHR ''/''" using 2 by auto
qed

lemma refSegment_ends:
  assumes "refSegment s"
  shows "s \<noteq> []" "CHR ''/'' \<notin> set s" "CHR ''#'' \<notin> set s" "hd s \<noteq> CHR ''/''" "last s \<noteq> CHR ''/''"
  using assms properName_ends [of s] by (auto simp: refSegment_def)

lemma normalizeSegs_proper: "list_all properName xs \<Longrightarrow> normalizeSegs a res xs = res @ xs"
  by (induction xs arbitrary: res) (simp_all add: properName_def)

lemma normalizeSegs_logical:
  "list_all properName dir \<Longrightarrow> list_all refSegment segs \<Longrightarrow> logicalPath dir segs = Some t
   \<Longrightarrow> normalizeSegs a dir segs = t \<and> list_all properName t"
proof (induction segs arbitrary: dir)
  case Nil
  then show ?case by simp
next
  case (Cons seg segs)
  have segs: "list_all refSegment segs" using Cons.prems(2) by simp
  show ?case
  proof (cases "seg = ''.''")
    case True
    then show ?thesis using Cons.IH [OF Cons.prems(1) segs] Cons.prems(3) by simp
  next
    case dot: False
    show ?thesis
    proof (cases "seg = ''..''")
      case True
      have ne: "dir \<noteq> []" using Cons.prems(3) True by (auto split: if_splits)
      have l: "logicalPath (butlast dir) segs = Some t" using Cons.prems(3) True ne by simp
      have "last dir \<in> set dir" using ne by simp
      then have "properName (last dir)" using Cons.prems(1) by (simp add: list_all_iff)
      then have up: "last dir \<noteq> ''..''" by (auto simp: properName_def)
      have b: "list_all properName (butlast dir)"
        using Cons.prems(1) by (auto simp: list_all_iff dest: in_set_butlastD)
      have "normalizeSegs a dir (seg # segs) = normalizeSegs a (butlast dir) segs"
        using True ne up by simp
      then show ?thesis using Cons.IH [OF b segs l] by simp
    next
      case False
      then have p: "properName seg" using Cons.prems(2) dot by (simp add: refSegment_def)
      have l: "logicalPath (dir @ [seg]) segs = Some t" using Cons.prems(3) dot False by simp
      have d: "list_all properName (dir @ [seg])" using Cons.prems(1) p by simp
      have "normalizeSegs a dir (seg # segs) = normalizeSegs a (dir @ [seg]) segs"
        using p dot False by (simp add: properName_def)
      then show ?thesis using Cons.IH [OF d segs l] by simp
    qed
  qed
qed

lemma posix_normalize_relative:
  assumes "s \<noteq> []" "hd s \<noteq> CHR ''/''" "last s \<noteq> CHR ''/''"
    and "normalizeSegs True [] (splitOn CHR ''/'' s) = t" "join ''/'' t \<noteq> []"
  shows "posix_normalize s = join ''/'' t"
  using assms by (simp add: posix_normalize_def normalizeString_def Let_def)

lemma posix_normalize_segments:
  assumes "xs \<noteq> []" "\<forall>s \<in> set xs. s \<noteq> [] \<and> CHR ''/'' \<notin> set s"
    and "normalizeSegs True [] xs = t" "t \<noteq> []" "list_all properName t"
  shows "posix_normalize (join ''/'' xs) = join ''/'' t"
proof (rule posix_normalize_relative)
  have h: "hd xs \<in> set xs" "last xs \<in> set xs" using assms(1) by simp_all
  then have hn: "hd xs \<noteq> []" "last xs \<noteq> []" using assms(2) by auto
  show "join ''/'' xs \<noteq> []" using assms(1) hn(1) by (rule join_nonempty)
  have nh: "CHR ''/'' \<notin> set (hd xs)" "CHR ''/'' \<notin> set (last xs)"
    using assms(2) h by blast+
  have mh: "hd (hd xs) \<in> set (hd xs)" using hn(1) by (rule hd_in_set)
  have "hd (hd xs) \<noteq> CHR ''/''"
  proof
    assume e: "hd (hd xs) = CHR ''/''"
    show False using mh nh(1) unfolding e by (rule notE [rotated])
  qed
  then show "hd (join ''/'' xs) \<noteq> CHR ''/''" using assms(1) hn(1) by (simp add: hd_join)
  have ml: "last (last xs) \<in> set (last xs)" using hn(2) by (rule last_in_set)
  have "last (last xs) \<noteq> CHR ''/''"
  proof
    assume e: "last (last xs) = CHR ''/''"
    show False using ml nh(2) unfolding e by (rule notE [rotated])
  qed
  then show "last (join ''/'' xs) \<noteq> CHR ''/''" using assms(1) hn(2) by (simp add: last_join)
  have "splitOn CHR ''/'' (join ''/'' xs) = xs"
    using splitOn_join [of xs "CHR ''/''"] assms(1,2) by simp
  then show "normalizeSegs True [] (splitOn CHR ''/'' (join ''/'' xs)) = t" using assms(3) by simp
  have "hd t \<in> set t" using assms(4) by simp
  then have "properName (hd t)" using assms(5) by (simp add: list_all_iff)
  then have "hd t \<noteq> []" by (simp add: properName_def)
  then show "join ''/'' t \<noteq> []" using assms(4) by (intro join_nonempty)
qed

lemma set_join: "c \<in> set (join sep xs) \<Longrightarrow> c \<in> set sep \<or> (\<exists>x \<in> set xs. c \<in> set x)"
proof (induction xs)
  case Nil
  then show ?case by simp
next
  case (Cons x xs)
  show ?case
  proof (cases "xs = []")
    case True
    then show ?thesis using Cons.prems by simp
  next
    case False
    then show ?thesis using Cons by (auto simp: join_Cons)
  qed
qed

lemma refPath_of_relativeRef:
  assumes "list_all refSegment segs" "fragment = [] \<or> hd fragment = CHR ''#''"
  shows "hd (splitOn CHR ''#'' (relativeRef segs fragment)) = join ''/'' segs"
proof -
  have n: "CHR ''#'' \<notin> set (join ''/'' segs)"
  proof
    assume "CHR ''#'' \<in> set (join ''/'' segs)"
    then have "CHR ''#'' \<in> set ''/'' \<or> (\<exists>x \<in> set segs. CHR ''#'' \<in> set x)" by (rule set_join)
    then show False using assms(1) by (auto simp: list_all_iff refSegment_def)
  qed
  show ?thesis
  proof (cases "fragment = []")
    case True
    then show ?thesis using n by (simp add: relativeRef_def splitOn_absent)
  next
    case False
    then obtain rest where f: "fragment = CHR ''#'' # rest" using assms(2) by (cases fragment) auto
    have "splitOn CHR ''#'' (join ''/'' segs @ CHR ''#'' # rest)
            = splitOn CHR ''#'' (join ''/'' segs) @ splitOn CHR ''#'' rest"
      by (rule splitOn_append)
    then show ?thesis using n f by (simp add: relativeRef_def splitOn_absent del: splitOn.simps)
  qed
qed

lemma refTargetPath_logical:
  assumes "list_all properName dir" "properName leaf"
    and "segs \<noteq> []" "list_all refSegment segs" "fragment = [] \<or> hd fragment = CHR ''#''"
    and "logicalPath dir segs = Some t" "t \<noteq> []"
  shows "refTargetPath (documentPath dir leaf) (relativeRef segs fragment) = join ''/'' t"
proof -
  define base where "base = (if dir = [] then [''.''] else dir)"
  have seg: "\<forall>s \<in> set segs. s \<noteq> [] \<and> CHR ''/'' \<notin> set s"
    using assms(4) refSegment_ends by (auto simp: list_all_iff)
  have dirs: "\<forall>s \<in> set dir. s \<noteq> [] \<and> CHR ''/'' \<notin> set s"
    using assms(1) properName_ends by (auto simp: list_all_iff)
  have R: "join ''/'' segs \<noteq> []"
  proof (rule join_nonempty)
    show "segs \<noteq> []" by (rule assms(3))
    have "hd segs \<in> set segs" using assms(3) by simp
    then show "hd segs \<noteq> []" using seg by auto
  qed
  have D: "posix_dirname (documentPath dir leaf) = join ''/'' base"
  proof (cases "dir = []")
    case True
    then show ?thesis
      using posix_dirname_leaf [of leaf] properName_ends(2) [OF assms(2)]
      by (simp add: documentPath_def base_def)
  next
    case False
    have "hd dir \<in> set dir" "last dir \<in> set dir" using False by simp_all
    then have e: "hd dir \<noteq> []" "last dir \<noteq> []" "properName (last dir)"
      using dirs assms(1) by (auto simp: list_all_iff)
    have 1: "join ''/'' dir \<noteq> []" using False e(1) by (rule join_nonempty)
    have 2: "last (join ''/'' dir) \<noteq> CHR ''/''"
      using last_join [OF False e(2), of "''/''"] properName_ends(4) [OF e(3)] by simp
    have "documentPath dir leaf = join ''/'' dir @ CHR ''/'' # leaf"
      using False by (simp add: documentPath_def join_append)
    then show ?thesis
      using posix_dirname_file [OF 1 2 properName_ends(1,2) [OF assms(2)]] False
      by (simp add: base_def)
  qed
  have Dn: "join ''/'' base \<noteq> []"
    using D posix_dirname_nonempty [of "documentPath dir leaf"] by simp
  have b: "base \<noteq> []" "\<forall>s \<in> set base. s \<noteq> [] \<and> CHR ''/'' \<notin> set s"
    using dirs by (auto simp: base_def)
  have all: "\<forall>s \<in> set (base @ segs). s \<noteq> [] \<and> CHR ''/'' \<notin> set s" using b(2) seg by auto
  have n: "normalizeSegs True [] (base @ segs) = t \<and> list_all properName t"
  proof -
    have "normalizeSegs True [] base = dir"
      using normalizeSegs_proper [OF assms(1), of True "[]"] by (simp add: base_def)
    then have "normalizeSegs True [] (base @ segs) = normalizeSegs True dir segs"
      by (simp add: normalizeSegs_append)
    then show ?thesis using normalizeSegs_logical [OF assms(1,4,6), of True] by simp
  qed
  have j: "posix_join [join ''/'' base, join ''/'' segs] = posix_normalize (join ''/'' (base @ segs))"
    using posix_join_two [OF Dn R] b(1) assms(3) by (simp add: join_append)
  have first: "posix_normalize (join ''/'' (base @ segs)) = join ''/'' t"
    using posix_normalize_segments [OF _ all, of t] n assms(7) b(1) by simp
  have tt: "\<forall>s \<in> set t. s \<noteq> [] \<and> CHR ''/'' \<notin> set s"
    using n properName_ends by (auto simp: list_all_iff)
  have second: "posix_normalize (join ''/'' t) = join ''/'' t"
    using posix_normalize_segments [OF assms(7) tt, of t] n normalizeSegs_proper [of t True "[]"]
      assms(7)
    by simp
  show ?thesis
    unfolding refTargetPath_def refPath_of_relativeRef [OF assms(4,5)] D j first second ..
qed

lemma resolveRef_caches:
  assumes "\<not> startsWith ref ''#''" "resolveRef repo ref context st = Inr (r, st')"
  shows "\<exists>doc. map_of (schemaCache st') (refTargetPath (path context) ref) = Some doc"
proof -
  from assms(2) obtain c where
    "loadSchemaContext repo (refTargetPath (path context) ref) st = Inr (c, st')"
    unfolding resolveRef_external [OF assms(1)]
    by (auto split: sum.splits prod.splits list.splits if_splits)
  then show ?thesis using loadSchemaContext_cached by blast
qed

lemma not_startsWith_hash:
  assumes "segs \<noteq> []" "list_all refSegment segs"
  shows "\<not> startsWith (relativeRef segs fragment) ''#''"
proof -
  have h: "hd segs \<in> set segs" using assms(1) by simp
  then have r: "refSegment (hd segs)" using assms(2) by (simp add: list_all_iff)
  have n: "hd segs \<noteq> []" using refSegment_ends(1) [OF r] .
  have j: "join ''/'' segs \<noteq> []" using assms(1) n by (rule join_nonempty)
  have m: "hd (hd segs) \<in> set (hd segs)" using n by (rule hd_in_set)
  have "hd (join ''/'' segs) \<noteq> CHR ''#''"
  proof
    assume "hd (join ''/'' segs) = CHR ''#''"
    then have "hd (hd segs) = CHR ''#''" using hd_join [OF assms(1) n, of "''/''"] by simp
    then have "CHR ''#'' \<in> set (hd segs)" using m by simp
    then show False using refSegment_ends(3) [OF r] by simp
  qed
  then show ?thesis using j by (cases "join ''/'' segs") (simp_all add: startsWith_def relativeRef_def)
qed

text \<open>
  Claim C6. A cross-file reference is loaded from the path \<open>refTargetPath\<close>, which the code
  computes with \<^verbatim>\<open>dirname\<close>, \<^verbatim>\<open>join\<close> and \<^verbatim>\<open>normalize\<close>. For a document in the directories \<open>dir\<close>
  of the repository and a reference whose relative path has the segments \<open>segs\<close>, that path
  is the logical path of the specification, its segments joined with \<^verbatim>\<open>/\<close>: the segments
  applied to the directory of the referencing document, \<^verbatim>\<open>.\<close> and \<^verbatim>\<open>..\<close> resolved. So two
  references, from two documents, with whatever prefixes, that have the same logical path are
  loaded from the identical path. The first resolution leaves the document in the cache
  under that path, and the second finds it there: it returns without reading, with the store
  as it was. A store in which no path was read twice stays so through a resolution and
  through a synthesis, and the cached document stays the same.
\<close>

theorem shared_file_loaded_once:
  assumes "list_all properName dir1" "properName leaf1" "path context1 = documentPath dir1 leaf1"
    and "list_all properName dir2" "properName leaf2" "path context2 = documentPath dir2 leaf2"
    and "segs1 \<noteq> []" "list_all refSegment segs1" "fragment1 = [] \<or> hd fragment1 = CHR ''#''"
    and "segs2 \<noteq> []" "list_all refSegment segs2" "fragment2 = [] \<or> hd fragment2 = CHR ''#''"
    and "logicalPath dir1 segs1 = Some target" "logicalPath dir2 segs2 = Some target"
    and "target \<noteq> []"
    and "resolveRef repo (relativeRef segs1 fragment1) context1 st = Inr (r1, st1)"
  shows "refTargetPath (path context1) (relativeRef segs1 fragment1) = join ''/'' target
       \<and> refTargetPath (path context2) (relativeRef segs2 fragment2) = join ''/'' target
       \<and> (\<exists>doc. map_of (schemaCache st1) (join ''/'' target) = Some doc
            \<and> loadSchemaContext repo (join ''/'' target) st1
                = Inr (\<lparr>schema = Parsed doc, path = join ''/'' target\<rparr>, st1))
       \<and> (\<exists>r2. resolveRef repo (relativeRef segs2 fragment2) context2 st1 = Inr (r2, st1))
       \<and> (storeOK st \<longrightarrow> storeOK st1)
       \<and> (storeOK st1 \<and> jsonTypeToTsType repo node context depth st1 = Inr (t, st2)
            \<longrightarrow> distinct (reads st2)
                \<and> map_of (schemaCache st2) (join ''/'' target)
                    = map_of (schemaCache st1) (join ''/'' target))"
proof -
  have p1: "refTargetPath (path context1) (relativeRef segs1 fragment1) = join ''/'' target"
    unfolding assms(3) using assms(1,2,7,8,9,13,15) by (rule refTargetPath_logical)
  have p2: "refTargetPath (path context2) (relativeRef segs2 fragment2) = join ''/'' target"
    unfolding assms(6) using assms(4,5,10,11,12,14,15) by (rule refTargetPath_logical)
  have n1: "\<not> startsWith (relativeRef segs1 fragment1) ''#''"
    using assms(7,8) by (rule not_startsWith_hash)
  have n2: "\<not> startsWith (relativeRef segs2 fragment2) ''#''"
    using assms(10,11) by (rule not_startsWith_hash)
  obtain doc where d: "map_of (schemaCache st1) (join ''/'' target) = Some doc"
    using resolveRef_caches [OF n1 assms(16)] p1 by auto
  have hit: "loadSchemaContext repo (join ''/'' target) st1
                = Inr (\<lparr>schema = Parsed doc, path = join ''/'' target\<rparr>, st1)"
    using d by (rule loadSchemaContext_hit)
  have again: "\<exists>r2. resolveRef repo (relativeRef segs2 fragment2) context2 st1 = Inr (r2, st1)"
    using resolveRef_hit [OF n2, of st1 context2 doc repo] d p2 by simp
  have ok: "storeOK st \<longrightarrow> storeOK st1"
    using resolveRef_store [OF assms(16)] by blast
  have later: "storeOK st1 \<and> jsonTypeToTsType repo node context depth st1 = Inr (t, st2)
            \<longrightarrow> distinct (reads st2)
                \<and> map_of (schemaCache st2) (join ''/'' target)
                    = map_of (schemaCache st1) (join ''/'' target)"
    using jsonTypeToTsType_store [of repo node "context" depth st1 t st2] d
    by (auto simp: storeOK_def cacheKept_def)
  show ?thesis using p1 p2 d hit again ok later by blast
qed

lemmas store_eval = resolveRef_def startsWith_def posix_dirname_def posix_join_def
  posix_normalize_def normalizeString_def loadSchemaContext_def emptyStore_def Let_def
  getByPointer_def pointerParts_def unescapePart_def targetAt_def inOperator_def

text \<open>
  The reference \<^verbatim>\<open>../common.json#/definitions/Base\<close> from \<^verbatim>\<open>source/a/b/entity.json\<close> and the
  reference \<^verbatim>\<open>./../common.json#/definitions/Base\<close> from its sibling \<^verbatim>\<open>source/a/b/other.json\<close>.
\<close>

theorem shared_file_loaded_once_witness:
  "refTargetPath ''source/a/b/entity.json'' ''../common.json#/definitions/Base''
     = ''source/a/common.json''
   \<and> refTargetPath ''source/a/b/other.json'' ''./../common.json#/definitions/Base''
     = ''source/a/common.json''
   \<and> resolveRef sharedRepo ''../common.json#/definitions/Base'' entityContext emptyStore
     = Inr (Some \<lparr>schema = Parsed (JObj [(''type'', JStr ''string'')]),
                  path = ''source/a/common.json''\<rparr>, sharedStore)
   \<and> (\<exists>r2. resolveRef sharedRepo ''./../common.json#/definitions/Base'' siblingContext sharedStore
              = Inr (r2, sharedStore))
   \<and> loadSchemaContext sharedRepo ''source/a/common.json'' sharedStore
     = Inr (\<lparr>schema = Parsed commonDoc, path = ''source/a/common.json''\<rparr>, sharedStore)
   \<and> jsonTypeToTsType sharedRepo (schema siblingContext) siblingContext 0 sharedStore
     = Inr (''string'', sharedStore)
   \<and> distinct (reads sharedStore)"
proof -
  have d: "list_all properName [''source'', ''a'', ''b'']" "properName ''entity.json''"
    "properName ''other.json''"
    by (simp_all add: properName_def)
  have c1: "path entityContext = documentPath [''source'', ''a'', ''b''] ''entity.json''"
    and c2: "path siblingContext = documentPath [''source'', ''a'', ''b''] ''other.json''"
    by (simp_all add: entityContext_def siblingContext_def documentPath_def)
  have s1: "[''..'', ''common.json''] \<noteq> []" "list_all refSegment [''..'', ''common.json'']"
    "''#/definitions/Base'' = [] \<or> hd ''#/definitions/Base'' = CHR ''#''"
    and s2: "[''.'', ''..'', ''common.json''] \<noteq> []"
    "list_all refSegment [''.'', ''..'', ''common.json'']"
    by (simp_all add: refSegment_def properName_def)
  have l1: "logicalPath [''source'', ''a'', ''b''] [''..'', ''common.json'']
              = Some [''source'', ''a'', ''common.json'']"
    and l2: "logicalPath [''source'', ''a'', ''b''] [''.'', ''..'', ''common.json'']
              = Some [''source'', ''a'', ''common.json'']"
    and l3: "[''source'', ''a'', ''common.json''] \<noteq> []"
    by simp_all
  have e1: "relativeRef [''..'', ''common.json''] ''#/definitions/Base''
              = ''../common.json#/definitions/Base''"
    and e2: "relativeRef [''.'', ''..'', ''common.json''] ''#/definitions/Base''
              = ''./../common.json#/definitions/Base''"
    and e3: "join ''/'' [''source'', ''a'', ''common.json''] = ''source/a/common.json''"
    by (simp_all add: relativeRef_def)
  have r1: "resolveRef sharedRepo (relativeRef [''..'', ''common.json''] ''#/definitions/Base'')
              entityContext emptyStore
     = Inr (Some \<lparr>schema = Parsed (JObj [(''type'', JStr ''string'')]),
                  path = ''source/a/common.json''\<rparr>, sharedStore)"
    unfolding e1
    by (simp add: store_eval sharedRepo_def entityContext_def sharedStore_def commonDoc_def)
  have r2: "resolveRef sharedRepo ''./../common.json#/definitions/Base'' siblingContext sharedStore
     = Inr (Some \<lparr>schema = Parsed (JObj [(''type'', JStr ''string'')]),
                  path = ''source/a/common.json''\<rparr>, sharedStore)"
    by (simp add: store_eval sharedRepo_def siblingContext_def sharedStore_def commonDoc_def)
  have ok: "storeOK sharedStore" by (simp add: storeOK_def sharedStore_def)
  have g: "getProp (schema siblingContext) ''$ref''
             = Some (JStr ''./../common.json#/definitions/Base'')"
    by (simp add: siblingContext_def)
  have j: "jsonTypeToTsType sharedRepo (schema siblingContext) siblingContext 0 sharedStore
     = Inr (''string'', sharedStore)"
    by (simp add: jsonTypeToTsType_ref [OF g] r2) (simp add: jsonTypeToTsType.simps primitiveType_def)
  note t = shared_file_loaded_once [OF d(1,2) c1 d(1,3) c2 s1 s2 s1(3) l1 l2 l3 r1,
             of "schema siblingContext" siblingContext 0 "''string''" sharedStore]
  have "refTargetPath ''source/a/b/entity.json'' ''../common.json#/definitions/Base''
     = ''source/a/common.json''"
    using t by (simp add: e1 e3 entityContext_def)
  moreover have "refTargetPath ''source/a/b/other.json'' ''./../common.json#/definitions/Base''
     = ''source/a/common.json''"
    using t by (simp add: e2 e3 siblingContext_def)
  moreover have "\<exists>r2. resolveRef sharedRepo ''./../common.json#/definitions/Base'' siblingContext
                       sharedStore = Inr (r2, sharedStore)"
    using t by (simp add: e2)
  moreover have "loadSchemaContext sharedRepo ''source/a/common.json'' sharedStore
     = Inr (\<lparr>schema = Parsed commonDoc, path = ''source/a/common.json''\<rparr>, sharedStore)"
    using t by (auto simp: e3 sharedStore_def)
  moreover have "distinct (reads sharedStore)"
    using t ok j by simp
  ultimately show ?thesis using r1 j by (simp add: e1)
qed

end
